theory Spec2Isabelle
  imports
    Main
    "HOL-Library.Word"
    "HOL-Library.Signed_Division"
    "HOL-Library.Char_ord"
    "HOL-Library.List_Lexorder"
    "HOL-Library.AList"
begin

section \<open>The duration sampler (package sampler)\<close>

text \<open>
  \<^verbatim>\<open>time.Duration\<close> is a signed 64-bit count of nanoseconds. It is modelled as \<open>int\<close>:
  for an input in the int64 range every intermediate value of \<^verbatim>\<open>Update\<close> lies between
  the input and a table constant, so no operation wraps. Go's \<^verbatim>\<open>/\<close> on integers truncates
  towards zero; that is \<open>sdiv\<close>.
\<close>

type_synonym Duration = int

definition Millisecond :: Duration where
  "Millisecond = 1000000"

record DurationSegment =
  resolution :: Duration
  slots :: int

definition seg :: "Duration \<Rightarrow> int \<Rightarrow> DurationSegment" where
  "seg r n = \<lparr>resolution = r, slots = n\<rparr>"

definition segments :: "DurationSegment list" where
  "segments =
    [seg Millisecond 500,
     seg (Millisecond * 2) 250,
     seg (Millisecond * 4) 250,
     seg (Millisecond * 8) 125,
     seg (Millisecond * 16) 125,
     seg (Millisecond * 32) 125,
     seg (Millisecond * 64) 125,
     seg (Millisecond * 128) 125,
     seg (Millisecond * 256) 125,
     seg (Millisecond * 512) 125,
     seg (Millisecond * 1024) 125]"

record DurationSampler =
  count :: "64 word"
  durations :: "32 word list"

text \<open>\<^verbatim>\<open>NewDurationSampler\<close>: one slot more than the segments hold together.\<close>

definition totalSlots :: "DurationSegment list \<Rightarrow> int" where
  "totalSlots segs = foldl (\<lambda>n s. n + slots s) 1 segs"

definition NewDurationSampler :: DurationSampler where
  "NewDurationSampler = \<lparr>count = 0, durations = replicate (nat (totalSlots segments)) 0\<rparr>"

text \<open>
  The loop of \<^verbatim>\<open>Update\<close> that computes the slot index: \<open>updateIdx segs d idx\<close> runs the
  loop over the remaining segments \<open>segs\<close> with the current values of \<^verbatim>\<open>d\<close> and \<^verbatim>\<open>idx\<close>.
\<close>

fun updateIdx :: "DurationSegment list \<Rightarrow> Duration \<Rightarrow> int \<Rightarrow> int" where
  "updateIdx [] d idx = idx"
| "updateIdx (s # ss) d idx =
     (let bound = resolution s * slots s in
      if d < bound - resolution s sdiv 2
      then idx + (d + resolution s sdiv 2) sdiv resolution s
      else updateIdx ss (d - bound) (idx + slots s))"

text \<open>The run-time panics of the Go code that the models below can reach.\<close>

datatype panic = IndexOutOfRange int nat | NilPointerDereference | CloseOfClosedChannel

text \<open>
  \<^verbatim>\<open>Update\<close>: the counter is a uint64 and every slot a uint32, both incremented with
  wrap-around; indexing the slice outside its bounds panics.
\<close>

definition Update :: "DurationSampler \<Rightarrow> Duration \<Rightarrow> panic + DurationSampler" where
  "Update ds d =
     (let idx = updateIdx segments d 0 in
      if idx < 0 \<or> int (length (durations ds)) \<le> idx
      then Inl (IndexOutOfRange idx (length (durations ds)))
      else Inr (ds\<lparr>count := count ds + 1,
                    durations := (durations ds)[nat idx := durations ds ! nat idx + 1]\<rparr>))"

subsection \<open>Percentiles\<close>

text \<open>
  The float64 constants of \<^verbatim>\<open>Percentiles\<close>, 0.25 to 0.999, each as a fraction.
\<close>

definition percentiles :: "(nat \<times> nat) list" where
  "percentiles = [(25, 100), (50, 100), (75, 100), (95, 100), (98, 100), (99, 100), (999, 1000)]"

text \<open>
  \<open>float_ge c t q\<close> is the test \<^verbatim>\<open>p >= percentiles[pi]\<close> for \<^verbatim>\<open>p = float64(count) / total\<close>, with
  \<open>c\<close> the value of \<^verbatim>\<open>count\<close>, \<open>t\<close> that of \<^verbatim>\<open>ds.count\<close> and \<open>q\<close> the constant. With \<open>t = 0\<close>
  the quotient is NaN for \<open>c = 0\<close>, which compares false, and infinite otherwise. With
  \<open>0 < t\<close> the test is modelled by the comparison of the exact fractions. The two agree
  while \<open>c \<le> t < 2 ^ 32\<close>: a quotient \<open>c / t\<close> below \<open>q\<close> is below it by more than
  \<open>1 / (1000 * t)\<close>, far more than the two roundings (of the quotient and of the constant,
  at most \<open>2 ^ -54\<close> each) can make up for, and rounding keeps the order.
\<close>

definition float_ge :: "nat \<Rightarrow> nat \<Rightarrow> nat \<times> nat \<Rightarrow> bool" where
  "float_ge c t q = (if t = 0 then 0 < c else fst q * t \<le> c * snd q)"

text \<open>
  The innermost loop, \<^verbatim>\<open>for p >= percentiles[pi]\<close>, for one slot: \<open>ms\<close> is the value
  \<^verbatim>\<open>d / time.Millisecond\<close> of the slot (an integer, stored as a float64), \<open>tot\<close> the local
  \<^verbatim>\<open>total\<close>. The flag tells whether the loop has executed \<^verbatim>\<open>return result\<close>. The function
  returns as soon as \<^verbatim>\<open>pi\<close> is \<^verbatim>\<open>len(percentiles)\<close>, so the loop never tests an index out
  of range; the model's bound on \<open>pi\<close> says so.
\<close>

function whileReached ::
  "nat \<Rightarrow> nat \<Rightarrow> int \<Rightarrow> int list \<Rightarrow> nat \<Rightarrow> int list \<times> nat \<times> bool" where
  "whileReached c tot ms result pi =
     (if pi < length percentiles \<and> float_ge c tot (percentiles ! pi) then
        (if pi + 1 = length percentiles then (result[pi := ms], pi + 1, True)
         else whileReached c tot ms (result[pi := ms]) (pi + 1))
      else (result, pi, False))"
  by pat_completeness auto
termination
  by (relation "measure (\<lambda>(c, tot, ms, result, pi). length percentiles - pi)") auto

declare whileReached.simps [simp del]

text \<open>The locals \<^verbatim>\<open>count\<close>, \<^verbatim>\<open>di\<close>, \<^verbatim>\<open>result\<close> and \<^verbatim>\<open>pi\<close> of \<^verbatim>\<open>Percentiles\<close>.\<close>

type_synonym scanState = "64 word \<times> nat \<times> int list \<times> nat"

text \<open>
  The loop over the slots \<open>i\<close> of one segment, and the loop over the segments with
  \<^verbatim>\<open>base\<close> as it stands. The slice \<^verbatim>\<open>durations\<close> of a sampler made by
  \<^verbatim>\<open>NewDurationSampler\<close> has an entry for every index \<^verbatim>\<open>di\<close> the loops reach.
\<close>

function slotsLoop ::
  "DurationSampler \<Rightarrow> nat \<Rightarrow> Duration \<Rightarrow> DurationSegment \<Rightarrow> int \<Rightarrow> scanState
     \<Rightarrow> scanState \<times> bool" where
  "slotsLoop ds tot base s i (cnt, di, result, pi) =
     (if i < slots s then
        (let cnt1 = cnt + ucast (durations ds ! di);
             di1 = di + 1;
             (result1, pi1, returned) =
                whileReached (unat cnt1) tot ((base + resolution s * i) sdiv Millisecond) result pi
         in if returned then ((cnt1, di1, result1, pi1), True)
            else slotsLoop ds tot base s (i + 1) (cnt1, di1, result1, pi1))
      else ((cnt, di, result, pi), False))"
  by pat_completeness auto
termination
  by (relation "measure (\<lambda>(ds, tot, base, s, i, st). nat (slots s - i))") auto

declare slotsLoop.simps [simp del]

fun segmentsLoop ::
  "DurationSampler \<Rightarrow> nat \<Rightarrow> Duration \<Rightarrow> DurationSegment list \<Rightarrow> scanState
     \<Rightarrow> scanState \<times> bool" where
  "segmentsLoop ds tot base [] st = (st, False)"
| "segmentsLoop ds tot base (s # ss) st =
     (case slotsLoop ds tot base s 0 st of
        (st1, True) \<Rightarrow> (st1, True)
      | (st1, False) \<Rightarrow> segmentsLoop ds tot (base + resolution s * slots s) ss st1)"

text \<open>The last loop: the percentiles not reached get 9999999.\<close>

function fillSentinel :: "int list \<Rightarrow> nat \<Rightarrow> int list" where
  "fillSentinel result pi =
     (if pi < length percentiles then fillSentinel (result[pi := 9999999]) (pi + 1) else result)"
  by pat_completeness auto
termination
  by (relation "measure (\<lambda>(result, pi). length percentiles - pi)") auto

declare fillSentinel.simps [simp del]

text \<open>
  \<^verbatim>\<open>Percentiles\<close>. Each result is a float64 holding an integer number of milliseconds; it
  is that integer here.
\<close>

definition Percentiles :: "DurationSampler \<Rightarrow> int list" where
  "Percentiles ds =
     (case segmentsLoop ds (unat (count ds)) 0 segments (0, 0, replicate (length percentiles) 0, 0) of
        ((cnt, di, result, pi), True) \<Rightarrow> result
      | ((cnt, di, result, pi), False) \<Rightarrow> fillSentinel result pi)"

text \<open>Recording a list of durations, one \<^verbatim>\<open>Update\<close> after the other.\<close>

fun updates :: "DurationSampler \<Rightarrow> Duration list \<Rightarrow> panic + DurationSampler" where
  "updates ds [] = Inr ds"
| "updates ds (d # rest) = (case Update ds d of Inl p \<Rightarrow> Inl p | Inr ds1 \<Rightarrow> updates ds1 rest)"

section \<open>The HTTP server runtime (package httpserver)\<close>

datatype stateType = stateNil | stateFailed | stateRunning | stateClosed

text \<open>
  Modelled from the spec: the declaration of the struct \<^verbatim>\<open>Spec\<close> is not among the sources;
  its fields are those the specification lists for ServerSpec, with the names the runtime
  uses. The record is extensible: the \<open>more\<close> part of a \<open>Spec_scheme\<close> stands for whatever
  further fields the struct has. A pointer or slice field is an \<open>option\<close>, \<open>None\<close> for
  \<^verbatim>\<open>nil\<close>.
\<close>

record ('tr, 'ipf, 'rule) Spec =
  Port :: "16 word"
  HTTPS :: bool
  HTTP3 :: bool
  KeepAlive :: bool
  KeepAliveTimeout :: string
  MaxConnections :: "32 word"
  CacheSize :: "32 word"
  XForwardedFor :: bool
  Tracing :: "'tr option"
  IPFilter :: "'ipf option"
  Rules :: "'rule list option"

text \<open>
  \<^verbatim>\<open>reflect.DeepEqual\<close> on two struct values compares them field by field, following
  pointers and slices; on the values of this model that is equality.
\<close>

definition DeepEqual :: "'a \<Rightarrow> 'a \<Rightarrow> bool" where
  "DeepEqual x y = (x = y)"

text \<open>\<^verbatim>\<open>supervisor.Spec\<close>, as far as the runtime reads it: its name and its object spec.\<close>

record ('tr, 'ipf, 'rule, 'm) supervisorSpec =
  Name :: string
  ObjectSpec :: "('tr, 'ipf, 'rule, 'm) Spec_scheme option"

type_synonym MuxMapper = nat

text \<open>What the runtime does to the world outside its own fields, in order.\<close>

datatype serverEffect =
    Listen "64 word" "16 word"
  | Serve "64 word"
  | ServeHTTP3 "64 word"
  | Server3Close
  | ServerShutdown
  | SetMaxConnection "32 word"
  | MuxReload MuxMapper
  | MuxClose
  | CloseDone nat
  | LogBug

text \<open>
  The fields of \<^verbatim>\<open>runtime\<close>. A server is identified by the round that created it. An
  \<^verbatim>\<open>error\<close> is its message, and a possibly nil \<^verbatim>\<open>error\<close> a \<open>string option\<close>. \<open>health\<close> is
  the value of the gauge \<^verbatim>\<open>metrics.Health\<close>; \<open>limitListener\<close> holds the connection limit of
  the limit listener once one exists.
\<close>

record ('tr, 'ipf, 'rule, 'm) runtime =
  superSpec :: "('tr, 'ipf, 'rule, 'm) supervisorSpec"
  spec :: "('tr, 'ipf, 'rule, 'm) Spec_scheme option"
  server :: "64 word option"
  server3 :: "64 word option"
  roundNum :: "64 word"
  state :: stateType
  err :: string
  health :: int
  limitListener :: "32 word option"
  trace :: "serverEffect list"

datatype ('tr, 'ipf, 'rule, 'm) event =
    eventCheckFailed
  | eventServeFailed "64 word" "string option"
  | eventReload "('tr, 'ipf, 'rule, 'm) supervisorSpec" MuxMapper
  | eventClose nat
  | eventUnknown

definition errNil :: string where
  "errNil = []"

definition emit ::
  "serverEffect list \<Rightarrow> ('tr, 'ipf, 'rule, 'm) runtime \<Rightarrow> ('tr, 'ipf, 'rule, 'm) runtime" where
  "emit es r = r\<lparr>trace := trace r @ es\<rparr>"

definition exportState ::
  "stateType \<Rightarrow> ('tr, 'ipf, 'rule, 'm) runtime \<Rightarrow> ('tr, 'ipf, 'rule, 'm) runtime" where
  "exportState st r = (if st = stateRunning then r\<lparr>health := 1\<rparr> else r\<lparr>health := 0\<rparr>)"

definition setState ::
  "stateType \<Rightarrow> ('tr, 'ipf, 'rule, 'm) runtime \<Rightarrow> ('tr, 'ipf, 'rule, 'm) runtime" where
  "setState st r = (exportState st r)\<lparr>state := st\<rparr>"

definition getState :: "('tr, 'ipf, 'rule, 'm) runtime \<Rightarrow> stateType" where
  "getState r = state r"

definition setError ::
  "string option \<Rightarrow> ('tr, 'ipf, 'rule, 'm) runtime \<Rightarrow> ('tr, 'ipf, 'rule, 'm) runtime" where
  "setError e r = (case e of None \<Rightarrow> r\<lparr>err := errNil\<rparr> | Some msg \<Rightarrow> r\<lparr>err := msg\<rparr>)"

definition getError :: "('tr, 'ipf, 'rule, 'm) runtime \<Rightarrow> string" where
  "getError r = err r"

text \<open>The six assignments of \<^verbatim>\<open>needRestartServer\<close> to each of its two copies.\<close>

definition zeroHotFields ::
  "('tr, 'ipf, 'rule, 'm) Spec_scheme \<Rightarrow> ('tr, 'ipf, 'rule, 'm) Spec_scheme" where
  "zeroHotFields x =
     x\<lparr>MaxConnections := 0, CacheSize := 0, XForwardedFor := False,
       Tracing := None, IPFilter := None, Rules := None\<rparr>"

text \<open>\<^verbatim>\<open>needRestartServer\<close> dereferences \<^verbatim>\<open>r.spec\<close> and \<^verbatim>\<open>nextSpec\<close>; on nil that panics.\<close>

definition needRestartServer ::
  "('tr, 'ipf, 'rule, 'm) runtime \<Rightarrow> ('tr, 'ipf, 'rule, 'm) Spec_scheme option \<Rightarrow> panic + bool" where
  "needRestartServer r nextSpec =
     (case spec r of
        None \<Rightarrow> Inl NilPointerDereference
      | Some x \<Rightarrow>
          (case nextSpec of
             None \<Rightarrow> Inl NilPointerDereference
           | Some y \<Rightarrow> Inr (\<not> DeepEqual (zeroHotFields x) (zeroHotFields y))))"

text \<open>
  The environment of the runtime: \<open>listenErr n\<close> is what \<^verbatim>\<open>gnet.Listen\<close> returns to the
  start of round \<open>n\<close>, \<open>None\<close> for success.
\<close>

type_synonym listenEnv = "64 word \<Rightarrow> string option"

definition startHTTP3Server ::
  "('tr, 'ipf, 'rule, 'm) runtime \<Rightarrow> ('tr, 'ipf, 'rule, 'm) runtime" where
  "startHTTP3Server r = emit [ServeHTTP3 (roundNum r)] (r\<lparr>server3 := Some (roundNum r)\<rparr>)"

definition startHTTP1And2Server ::
  "listenEnv \<Rightarrow> ('tr, 'ipf, 'rule, 'm) Spec_scheme \<Rightarrow> ('tr, 'ipf, 'rule, 'm) runtime
     \<Rightarrow> ('tr, 'ipf, 'rule, 'm) runtime" where
  "startHTTP1And2Server env s r =
     (let r1 = emit [Listen (roundNum r) (Port s)] (r\<lparr>server := Some (roundNum r)\<rparr>) in
      case env (roundNum r) of
        Some e \<Rightarrow> setError (Some e) (setState stateFailed r1)
      | None \<Rightarrow> emit [Serve (roundNum r)] (r1\<lparr>limitListener := Some (MaxConnections s)\<rparr>))"

definition startServer ::
  "listenEnv \<Rightarrow> ('tr, 'ipf, 'rule, 'm) runtime \<Rightarrow> panic + ('tr, 'ipf, 'rule, 'm) runtime" where
  "startServer env r =
     (let r1 = setError None (setState stateRunning (r\<lparr>roundNum := roundNum r + 1\<rparr>)) in
      case spec r1 of
        None \<Rightarrow> Inl NilPointerDereference
      | Some s \<Rightarrow> Inr (if HTTP3 s then startHTTP3Server r1 else startHTTP1And2Server env s r1))"

definition closeServer ::
  "('tr, 'ipf, 'rule, 'm) runtime \<Rightarrow> ('tr, 'ipf, 'rule, 'm) runtime" where
  "closeServer r =
     (if server3 r \<noteq> None then emit [Server3Close] r
      else if server r \<noteq> None then emit [ServerShutdown] r
      else r)"

definition reload ::
  "listenEnv \<Rightarrow> ('tr, 'ipf, 'rule, 'm) runtime \<Rightarrow> ('tr, 'ipf, 'rule, 'm) supervisorSpec
     \<Rightarrow> MuxMapper \<Rightarrow> panic + ('tr, 'ipf, 'rule, 'm) runtime" where
  "reload env r nextSuperSpec muxMapper =
     (let r1 = emit [MuxReload muxMapper] (r\<lparr>superSpec := nextSuperSpec\<rparr>);
          nextSpec = ObjectSpec nextSuperSpec;
          r2 = (case nextSpec of
                  None \<Rightarrow> r1
                | Some n \<Rightarrow>
                    (if limitListener r1 \<noteq> None
                     then emit [SetMaxConnection (MaxConnections n)]
                            (r1\<lparr>limitListener := Some (MaxConnections n)\<rparr>)
                     else r1))
      in case spec r2 of
           None \<Rightarrow>
             (case nextSpec of
                None \<Rightarrow> Inr (emit [LogBug] r2)
              | Some n \<Rightarrow> startServer env (r2\<lparr>spec := Some n\<rparr>))
         | Some old \<Rightarrow>
             (case nextSpec of
                None \<Rightarrow> Inr (closeServer ((emit [LogBug] r2)\<lparr>spec := None\<rparr>))
              | Some n \<Rightarrow>
                  (case needRestartServer r2 nextSpec of
                     Inl p \<Rightarrow> Inl p
                   | Inr True \<Rightarrow> startServer env (closeServer (r2\<lparr>spec := Some n\<rparr>))
                   | Inr False \<Rightarrow> Inr (r2\<lparr>spec := Some n\<rparr>))))"

definition handleEventCheckFailed ::
  "listenEnv \<Rightarrow> ('tr, 'ipf, 'rule, 'm) runtime \<Rightarrow> panic + ('tr, 'ipf, 'rule, 'm) runtime" where
  "handleEventCheckFailed env r =
     (if getState r = stateFailed then startServer env r else Inr r)"

definition handleEventServeFailed ::
  "('tr, 'ipf, 'rule, 'm) runtime \<Rightarrow> 64 word \<Rightarrow> string option \<Rightarrow> ('tr, 'ipf, 'rule, 'm) runtime" where
  "handleEventServeFailed r e_roundNum e_err =
     (if roundNum r > e_roundNum then r
      else setError e_err (setState stateFailed r))"

definition handleEventReload ::
  "listenEnv \<Rightarrow> ('tr, 'ipf, 'rule, 'm) runtime \<Rightarrow> ('tr, 'ipf, 'rule, 'm) supervisorSpec
     \<Rightarrow> MuxMapper \<Rightarrow> panic + ('tr, 'ipf, 'rule, 'm) runtime" where
  "handleEventReload env r nextSuperSpec muxMapper = reload env r nextSuperSpec muxMapper"

definition handleEventClose ::
  "('tr, 'ipf, 'rule, 'm) runtime \<Rightarrow> nat \<Rightarrow> ('tr, 'ipf, 'rule, 'm) runtime" where
  "handleEventClose r done = emit [MuxClose, CloseDone done] (closeServer (setState stateClosed r))"

text \<open>
  The loop \<^verbatim>\<open>fsm\<close> over the events the channel delivers. The channel is never closed, so
  with no event left the loop waits (\<open>Waiting\<close>); after \<^verbatim>\<open>eventClose\<close> it returns
  (\<open>Exited\<close>, with the events it has left in the channel). A panic ends the program.
\<close>

datatype ('r, 'e) loopEnd = Waiting 'r | Exited 'r "'e list"

fun fsm ::
  "listenEnv \<Rightarrow> ('tr, 'ipf, 'rule, 'm) event list \<Rightarrow> ('tr, 'ipf, 'rule, 'm) runtime
     \<Rightarrow> panic + (('tr, 'ipf, 'rule, 'm) runtime, ('tr, 'ipf, 'rule, 'm) event) loopEnd" where
  "fsm env [] r = Inr (Waiting r)"
| "fsm env (eventCheckFailed # es) r =
     (case handleEventCheckFailed env r of Inl p \<Rightarrow> Inl p | Inr r' \<Rightarrow> fsm env es r')"
| "fsm env (eventServeFailed n e # es) r = fsm env es (handleEventServeFailed r n e)"
| "fsm env (eventReload ss mm # es) r =
     (case handleEventReload env r ss mm of Inl p \<Rightarrow> Inl p | Inr r' \<Rightarrow> fsm env es r')"
| "fsm env (eventClose done # es) r = Inr (Exited (handleEventClose r done) es)"
| "fsm env (eventUnknown # es) r = fsm env es (emit [LogBug] r)"

section \<open>The gateway cluster (package gateway)\<close>

type_synonym Mode = string

definition NilMode :: Mode where
  "NilMode = []"

definition WriteMode :: Mode where
  "WriteMode = ''Write''"

definition ReadMode :: Mode where
  "ReadMode = ''Read''"

definition groupTagKey :: string where
  "groupTagKey = ''group''"

definition modeTagKey :: string where
  "modeTagKey = ''mode''"

definition Second :: Duration where
  "Second = 1000000000"

record Config =
  ClusterGroup :: string
  ClusterMemberMode :: Mode
  ClusterMemberName :: string
  Peers :: "string list"
  OPLogMaxSeqGapToPull :: "16 word"
  OPLogPullMaxCountOnce :: "16 word"
  OPLogPullInterval :: Duration
  OPLogPullTimeout :: Duration

text \<open>
  \<^verbatim>\<open>cluster.Config\<close>, as far as \<^verbatim>\<open>NewGatewayCluster\<close> writes it. A Go map from strings to
  strings is a partial function; reading a missing key gives the empty string.
\<close>

record clusterConfig =
  conf_NodeName :: string
  conf_NodeTags :: "string \<rightharpoonup> string"
  BindAddress :: string
  AdvertiseAddress :: string
  UDPBufferSize :: int
  conf_GossipInterval :: Duration
  MinLevel :: string

text \<open>
  What \<^verbatim>\<open>NewGatewayCluster\<close> reads from outside its arguments: the variables of package
  \<^verbatim>\<open>option\<close>, the default configuration of the gossip layer, and the errors (\<open>None\<close> for
  none) that \<^verbatim>\<open>cluster.Create\<close> and \<^verbatim>\<open>NewOPLog\<close> return.
\<close>

record createEnv =
  ClusterHost :: string
  PacketBufferBytes :: int
  GossipInterval :: Duration
  Stage :: string
  DefaultLANConfig :: clusterConfig
  clusterCreateErr :: "string option"
  newOPLogErr :: "string option"

text \<open>
  The fields of \<^verbatim>\<open>GatewayCluster\<close>. The model, the gossip cluster, the operation log and the
  event stream are objects outside this package; \<open>model\<close> is a handle. \<^verbatim>\<open>stopChan\<close> is a
  channel that is only ever closed: \<open>stopChanClosed\<close>.
\<close>

record GatewayCluster =
  conf :: Config
  model :: nat
  clusterConf :: clusterConfig
  mode :: Mode
  stopChanClosed :: bool
  stopped :: bool

text \<open>
  Modelled from the spec: \<^verbatim>\<open>common.StrInSlice\<close> is not among the sources; by its name and
  its use it tells whether the string is an element of the slice.
\<close>

definition StrInSlice :: "string \<Rightarrow> string list \<Rightarrow> bool" where
  "StrInSlice s xs = (s \<in> set xs)"

text \<open>
  \<^verbatim>\<open>NewGatewayCluster\<close>, up to the value it returns; the tasks it starts after building
  the object run later. An error is its message. \<^verbatim>\<open>Duration.Seconds() < 10\<close> compares a
  float64 that is below 10 exactly when the duration is below ten seconds.
\<close>

definition NewGatewayCluster ::
  "createEnv \<Rightarrow> Config \<Rightarrow> nat option \<Rightarrow> string + GatewayCluster" where
  "NewGatewayCluster env cf md =
     (case md of
        None \<Rightarrow> Inl ''model is nil''
      | Some m \<Rightarrow>
          if length (ClusterGroup cf) = 0 then Inl ''empty group''
          else if OPLogMaxSeqGapToPull cf = 0
            then Inl ''oplog_max_seq_gap_to_pull must be greater then 0''
          else if OPLogPullMaxCountOnce cf = 0
            then Inl ''oplog_pull_max_count_once must be greater then 0''
          else if OPLogPullInterval cf = 0
            then Inl ''oplog_pull_interval must be greater than 0''
          else if OPLogPullTimeout cf < 10 * Second
            then Inl ''oplog_pull_timeout must be greater than or equals to 10''
          else
            (let basisConf = (DefaultLANConfig env)
                   \<lparr>conf_NodeName := ClusterMemberName cf,
                    conf_NodeTags := (conf_NodeTags (DefaultLANConfig env))
                        (groupTagKey \<mapsto> ClusterGroup cf, modeTagKey \<mapsto> ClusterMemberMode cf),
                    BindAddress := ClusterHost env,
                    AdvertiseAddress := ClusterHost env,
                    UDPBufferSize := PacketBufferBytes env,
                    conf_GossipInterval := GossipInterval env\<rparr>
             in
             if StrInSlice (AdvertiseAddress basisConf) [''127.0.0.1'', ''localhost'', ''0.0.0.0'']
             then Inl (''invalid advertise address '' @ AdvertiseAddress basisConf @
                       '', it should be reachable from peer'')
             else
               (let basisConf' = basisConf
                      \<lparr>MinLevel := (if Stage env = ''debug'' then ''DEBUG'' else ''WARN'')\<rparr>
                in case clusterCreateErr env of
                     Some e \<Rightarrow> Inl e
                   | None \<Rightarrow>
                       (case newOPLogErr env of
                          Some e \<Rightarrow> Inl e
                        | None \<Rightarrow>
                            Inr \<lparr>conf = cf, model = m, clusterConf = basisConf',
                                 mode = ClusterMemberMode cf,
                                 stopChanClosed = False, stopped = False\<rparr>))))"

definition Mode_of :: "GatewayCluster \<Rightarrow> Mode" where
  "Mode_of gc = mode gc"

subsection \<open>Stopping\<close>

text \<open>
  What the gossip cluster and the operation log answer during one call of
  \<^verbatim>\<open>internalStop\<close>: the errors of \<^verbatim>\<open>cluster.Leave\<close>, \<^verbatim>\<open>cluster.Stop\<close> and \<^verbatim>\<open>log.Close\<close>
  (\<open>None\<close> for none), and after how many sleeps of the polling loop \<^verbatim>\<open>NodeStatus\<close> is
  \<^verbatim>\<open>NodeLeft\<close> (\<open>None\<close>: never, the loop does not end).
\<close>

record stopEnv =
  leaveErr :: "string option"
  pollsUntilLeft :: "nat option"
  clusterStopErr :: "string option"
  logCloseErr :: "string option"

datatype stopEffect = CloseStopChan | ClusterLeave | Sleep100ms | ClusterStop | OPLogClose

text \<open>How a call ends: it returns a possibly nil error, it panics, or it never returns.\<close>

datatype callEnd = Returns "string option" | Panics panic | Hangs

text \<open>
  \<^verbatim>\<open>internalStop\<close> runs under \<^verbatim>\<open>statusLock\<close>, so two calls never overlap. The result is
  how the call ends, the cluster object afterwards and what the call did outside it.
\<close>

definition closeLogAndFinish ::
  "stopEnv \<Rightarrow> GatewayCluster \<Rightarrow> stopEffect list \<Rightarrow> callEnd \<times> GatewayCluster \<times> stopEffect list" where
  "closeLogAndFinish env gc done =
     (case logCloseErr env of
        Some e \<Rightarrow> (Returns (Some e), gc, done @ [OPLogClose])
      | None \<Rightarrow> (Returns None, gc\<lparr>stopped := True\<rparr>, done @ [OPLogClose]))"

definition internalStop ::
  "stopEnv \<Rightarrow> GatewayCluster \<Rightarrow> bool \<Rightarrow> callEnd \<times> GatewayCluster \<times> stopEffect list" where
  "internalStop env gc stopBasis =
     (if stopped gc then (Returns (Some ''already stopped''), gc, [])
      else if stopChanClosed gc then (Panics CloseOfClosedChannel, gc, [])
      else
        (let gc1 = gc\<lparr>stopChanClosed := True\<rparr> in
         if stopBasis then
           (case leaveErr env of
              Some e \<Rightarrow> (Returns (Some e), gc1, [CloseStopChan, ClusterLeave])
            | None \<Rightarrow>
                (case pollsUntilLeft env of
                   None \<Rightarrow> (Hangs, gc1, [CloseStopChan, ClusterLeave])
                 | Some n \<Rightarrow>
                     (let done = [CloseStopChan, ClusterLeave] @ replicate n Sleep100ms @ [ClusterStop] in
                      case clusterStopErr env of
                        Some e \<Rightarrow> (Returns (Some e), gc1, done)
                      | None \<Rightarrow> closeLogAndFinish env gc1 done)))
         else closeLogAndFinish env gc1 [CloseStopChan]))"

definition Stop :: "stopEnv \<Rightarrow> GatewayCluster \<Rightarrow> callEnd \<times> GatewayCluster \<times> stopEffect list" where
  "Stop env gc = internalStop env gc True"

definition Stopped :: "GatewayCluster \<Rightarrow> bool" where
  "Stopped gc = stopped gc"

subsection \<open>Dispatching cluster events\<close>

type_synonym MessageType = "8 word"

text \<open>
  Modelled from the spec: the constants of \<^verbatim>\<open>MessageType\<close> are not among the sources;
  their values are the codes of the specification's table of message types.
\<close>

definition querySeqMessage :: MessageType where
  "querySeqMessage = 1"

definition queryMemberMessage :: MessageType where
  "queryMemberMessage = 2"

definition queryMembersListMessage :: MessageType where
  "queryMembersListMessage = 3"

definition queryGroupMessage :: MessageType where
  "queryGroupMessage = 4"

definition operationMessage :: MessageType where
  "operationMessage = 5"

definition operationRelayMessage :: MessageType where
  "operationRelayMessage = 6"

definition retrieveMessage :: MessageType where
  "retrieveMessage = 7"

definition retrieveRelayMessage :: MessageType where
  "retrieveRelayMessage = 8"

definition statMessage :: MessageType where
  "statMessage = 9"

definition statRelayMessage :: MessageType where
  "statRelayMessage = 10"

definition opLogPullMessage :: MessageType where
  "opLogPullMessage = 11"

text \<open>
  \<^verbatim>\<open>cluster.RequestEvent\<close>, as far as \<^verbatim>\<open>dispatch\<close> reads it; \<open>Closed\<close> is what the method
  \<^verbatim>\<open>Closed()\<close> answers when \<^verbatim>\<open>dispatch\<close> asks.
\<close>

record RequestEvent =
  RequestName :: string
  RequestNodeName :: string
  RequestPayload :: "8 word list"
  Closed :: bool

text \<open>
  Modelled from the spec: \<^verbatim>\<open>cluster.Member\<close> and its status constants are not among the
  sources; the statuses are those the specification lists for a member.
\<close>

datatype MemberStatus = MemberAlive | MemberSuspect | MemberFailed | MemberLeft

record Member =
  NodeName :: string
  Status :: MemberStatus
  NodeTags :: "string \<rightharpoonup> string"

definition tag :: "Member \<Rightarrow> string \<Rightarrow> string" where
  "tag m k = (case NodeTags m k of None \<Rightarrow> [] | Some v \<Rightarrow> v)"

datatype MemberEventType =
    MemberJoinEvent | MemberLeftEvent | MemberFailedEvent | MemberUpdateEvent
  | MemberCleanupEvent | MemberOtherEvent

datatype clusterEvent = RequestEv RequestEvent | MemberEv MemberEventType Member | OtherEv

datatype handler =
    handleQuerySequence | handleQueryMember | handleQueryMembersList | handleQueryGroup
  | handleOperation | handleOperationRelay | handleRetrieve | handleRetrieveRelay
  | handleStat | handleStatRelay | handleOPLogPull

datatype logLevel = Debugf | Infof | Warnf | Errorf

text \<open>
  What handling one event does: it writes a log line, it starts a handler on the event as a
  new goroutine (\<open>Go\<close>), or it answers the request (\<open>Respond\<close>).
\<close>

datatype dispatchEffect = Logged logLevel | Go handler RequestEvent | Respond "8 word list"

definition dispatchRequest :: "Mode \<Rightarrow> RequestEvent \<Rightarrow> dispatchEffect list" where
  "dispatchRequest m event =
     (if length (RequestPayload event) = 0 then []
      else if Closed event then [Logged Warnf]
      else
        (let t = hd (RequestPayload event) in
         if t = querySeqMessage then [Logged Debugf, Go handleQuerySequence event]
         else if t = queryMemberMessage then [Logged Debugf, Go handleQueryMember event]
         else if t = queryMembersListMessage then [Logged Debugf, Go handleQueryMembersList event]
         else if t = queryGroupMessage then [Logged Debugf, Go handleQueryGroup event]
         else if t = operationMessage then
           (if m = WriteMode then [Logged Debugf, Go handleOperation event] else [Logged Errorf])
         else if t = operationRelayMessage then
           (if m = ReadMode then [Logged Debugf, Go handleOperationRelay event] else [Logged Errorf])
         else if t = retrieveMessage then
           (if m = WriteMode then [Logged Debugf, Go handleRetrieve event] else [Logged Errorf])
         else if t = retrieveRelayMessage then
           (if m = ReadMode then [Logged Debugf, Go handleRetrieveRelay event] else [Logged Errorf])
         else if t = statMessage then [Logged Debugf, Go handleStat event]
         else if t = statRelayMessage then [Logged Debugf, Go handleStatRelay event]
         else if t = opLogPullMessage then [Logged Debugf, Go handleOPLogPull event]
         else []))"

definition dispatchMember :: "MemberEventType \<Rightarrow> Member \<Rightarrow> dispatchEffect list" where
  "dispatchMember ty m =
     (case ty of
        MemberJoinEvent \<Rightarrow> [Logged Infof]
      | MemberLeftEvent \<Rightarrow> [Logged Infof]
      | MemberFailedEvent \<Rightarrow> [Logged Warnf]
      | MemberUpdateEvent \<Rightarrow> [Logged Infof]
      | MemberCleanupEvent \<Rightarrow> [Logged Debugf]
      | MemberOtherEvent \<Rightarrow> [])"

definition dispatchEvent :: "Mode \<Rightarrow> clusterEvent \<Rightarrow> dispatchEffect list" where
  "dispatchEvent m ev =
     (case ev of
        RequestEv event \<Rightarrow> dispatchRequest m event
      | MemberEv ty mem \<Rightarrow> dispatchMember ty mem
      | OtherEv \<Rightarrow> [])"

text \<open>
  The loop of \<^verbatim>\<open>dispatch\<close>: each turn of the \<^verbatim>\<open>select\<close> takes an event from the stream or
  finds \<^verbatim>\<open>stopChan\<close> closed. The list gives what the turns take, in order.
\<close>

datatype dispatchSelect = FromEventStream clusterEvent | FromStopChan

fun dispatch ::
  "Mode \<Rightarrow> dispatchSelect list \<Rightarrow> dispatchEffect list
     \<Rightarrow> (dispatchEffect list, dispatchSelect) loopEnd" where
  "dispatch m [] done = Waiting done"
| "dispatch m (FromStopChan # rest) done = Exited done rest"
| "dispatch m (FromEventStream ev # rest) done = dispatch m rest (done @ dispatchEvent m ev)"

text \<open>The handlers an effect list starts, and the answers it sends.\<close>

definition spawned :: "dispatchEffect list \<Rightarrow> (handler \<times> RequestEvent) list" where
  "spawned effs = concat (map (\<lambda>e. case e of Go h ev \<Rightarrow> [(h, ev)] | _ \<Rightarrow> []) effs)"

definition responded :: "dispatchEffect list \<Rightarrow> 8 word list list" where
  "responded effs = concat (map (\<lambda>e. case e of Respond p \<Rightarrow> [p] | _ \<Rightarrow> []) effs)"

subsection \<open>Queries on the member snapshot\<close>

text \<open>
  \<^verbatim>\<open>writerInGroup\<close>: the first alive member of the group whose mode is Write, or an error.
\<close>

fun writerInGroup :: "Member list \<Rightarrow> string \<Rightarrow> string + string" where
  "writerInGroup [] g = Inl (''writer doesn't exist in group: '' @ g)"
| "writerInGroup (member # rest) g =
     (if Status member = MemberAlive \<and> tag member modeTagKey = WriteMode \<and> tag member groupTagKey = g
      then Inr (NodeName member)
      else writerInGroup rest g)"

text \<open>
  The loop of \<^verbatim>\<open>groupsInCluster\<close> over the members, with the slice \<^verbatim>\<open>groups\<close> and the set
  \<^verbatim>\<open>groupsBook\<close> as they stand.
\<close>

fun groupsLoop :: "Member list \<Rightarrow> string list \<Rightarrow> string set \<Rightarrow> string list" where
  "groupsLoop [] groups groupsBook = groups"
| "groupsLoop (member # rest) groups groupsBook =
     (let g = tag member groupTagKey in
      if g \<in> groupsBook then groupsLoop rest groups groupsBook
      else groupsLoop rest (groups @ [g]) (insert g groupsBook))"

text \<open>
  \<^verbatim>\<open>sort.Strings\<close> orders strings byte by byte, a proper prefix first: the order of
  \<open>char list\<close>. Sorting a list under a linear order has one result, whatever the algorithm.
\<close>

definition groupsInCluster :: "Member list \<Rightarrow> string list" where
  "groupsInCluster totalMembers = sort (groupsLoop totalMembers [] {})"

definition groupExistInCluster :: "Member list \<Rightarrow> string \<Rightarrow> bool" where
  "groupExistInCluster totalMembers g = (g \<in> set (groupsInCluster totalMembers))"

subsection \<open>Recording the responses of a request\<close>

text \<open>
  What one turn of the \<^verbatim>\<open>select\<close> in \<^verbatim>\<open>recordResp\<close> takes: a response of a node with its
  payload (\<open>None\<close> for nil), the closed response channel of the future (its timeout), or
  the closed \<^verbatim>\<open>stopChan\<close>.
\<close>

datatype respSelect = Response string "8 word list option" | ResponseClosed | StopChanClosed

text \<open>
  The book maps node names to payloads, \<open>None\<close> for nil. It is a list of entries with one
  entry for each key, so that its length is \<^verbatim>\<open>len(membersRespBook)\<close>.
\<close>

type_synonym respBook = "(string \<times> 8 word list option) list"

text \<open>
  \<^verbatim>\<open>recordResp\<close> with the counter \<^verbatim>\<open>memberRespCount\<close> as it stands. The result is \<open>None\<close>
  when the loop waits for a turn that the list does not give; otherwise the book at the
  return and the turns left. A closed channel stays closed: the next turn takes from it
  again, unless it finds \<^verbatim>\<open>stopChan\<close> closed.
\<close>

function recordResp :: "respSelect list \<Rightarrow> nat \<Rightarrow> respBook \<Rightarrow> (respBook \<times> respSelect list) option" where
  "recordResp [] memberRespCount book =
     (if memberRespCount < length book then None else Some (book, []))"
| "recordResp (sel # rest) memberRespCount book =
     (if \<not> memberRespCount < length book then Some (book, sel # rest)
      else
        (case sel of
           StopChanClosed \<Rightarrow> Some (book, rest)
         | ResponseClosed \<Rightarrow>
             recordResp (if memberRespCount + 1 < length book then ResponseClosed # rest else rest)
               (memberRespCount + 1) book
         | Response node payload \<Rightarrow>
             (case map_of book node of
                None \<Rightarrow> recordResp rest (memberRespCount + 1) book
              | Some (Some p) \<Rightarrow> recordResp rest (memberRespCount + 1) book
              | Some None \<Rightarrow>
                  recordResp rest (memberRespCount + 1)
                    (AList.update node (Some (case payload of None \<Rightarrow> [] | Some b \<Rightarrow> b)) book))))"
  by pat_completeness auto
termination
  by (relation "measures [\<lambda>(sels, n, book). length sels, \<lambda>(sels, n, book). length book - n]") auto

section \<open>Notions of the specification and concrete inputs\<close>

text \<open>The span of durations the segment table covers: the sum of its segments' spans.\<close>

definition coverage :: "DurationSegment list \<Rightarrow> Duration" where
  "coverage segs = sum_list (map (\<lambda>s. resolution s * slots s) segs)"

text \<open>
  The values, in milliseconds, that \<^verbatim>\<open>Percentiles\<close> reports for the slots of the table, in
  the order of the slots; \<open>slotRepsNs\<close> gives them in nanoseconds.
\<close>

fun slotReps :: "Duration \<Rightarrow> DurationSegment list \<Rightarrow> int list" where
  "slotReps base [] = []"
| "slotReps base (s # ss) =
     map (\<lambda>i. (base + resolution s * int i) sdiv Millisecond) [0..<nat (slots s)]
       @ slotReps (base + resolution s * slots s) ss"

text \<open>The two nested loops of \<^verbatim>\<open>Percentiles\<close> as one loop over the values of the slots.\<close>

fun flatScan :: "DurationSampler \<Rightarrow> nat \<Rightarrow> int list \<Rightarrow> scanState \<Rightarrow> scanState \<times> bool" where
  "flatScan ds tot [] st = (st, False)"
| "flatScan ds tot (ms # rest) (cnt, di, result, pi) =
     (let cnt1 = cnt + ucast (durations ds ! di);
          di1 = di + 1;
          (result1, pi1, returned) = whileReached (unat cnt1) tot ms result pi
      in if returned then ((cnt1, di1, result1, pi1), True)
         else flatScan ds tot rest (cnt1, di1, result1, pi1))"

text \<open>What \<^verbatim>\<open>Percentiles\<close> returns after its loops.\<close>

definition finish :: "scanState \<times> bool \<Rightarrow> int list" where
  "finish r = (case r of
        ((cnt, di, result, pi), True) \<Rightarrow> result
      | ((cnt, di, result, pi), False) \<Rightarrow> fillSentinel result pi)"

text \<open>The value of the first slot, counted from \<open>j\<close>, whose index satisfies \<open>G\<close>; else 9999999.\<close>

fun firstRep :: "(nat \<Rightarrow> bool) \<Rightarrow> nat \<Rightarrow> int list \<Rightarrow> int" where
  "firstRep G j [] = 9999999"
| "firstRep G j (ms # rest) = (if G j then ms else firstRep G (Suc j) rest)"

text \<open>The sum of the first \<open>j\<close> slots, as the uint64 \<^verbatim>\<open>count\<close> of \<^verbatim>\<open>Percentiles\<close> holds it.\<close>

definition cumWord :: "DurationSampler \<Rightarrow> nat \<Rightarrow> 64 word" where
  "cumWord ds j = sum_list (map ucast (take j (durations ds)))"

text \<open>The slot that \<^verbatim>\<open>Update\<close> counts a duration in.\<close>

definition slotOf :: "Duration \<Rightarrow> nat" where
  "slotOf d = nat (updateIdx segments d 0)"

text \<open>
  The true percentile of the claim, by the nearest-rank rule: of \<open>n\<close> samples, the
  percentile \<open>q = a / b\<close> is the sample of rank \<open>\<lceil>q * n\<rceil>\<close> in ascending order.
\<close>

definition rank :: "nat \<times> nat \<Rightarrow> nat \<Rightarrow> nat" where
  "rank q n = (fst q * n + snd q - 1) div snd q"

definition truePercentile :: "nat \<times> nat \<Rightarrow> Duration list \<Rightarrow> Duration" where
  "truePercentile q xs = sort xs ! (rank q (length xs) - 1)"

fun slotRepsNs :: "Duration \<Rightarrow> DurationSegment list \<Rightarrow> Duration list" where
  "slotRepsNs base [] = []"
| "slotRepsNs base (s # ss) =
     map (\<lambda>i. base + resolution s * int i) [0..<nat (slots s)]
       @ slotRepsNs (base + resolution s * slots s) ss"

text \<open>
  The resolution of the segment whose slot \<^verbatim>\<open>Update\<close> counts the duration in (0 for the
  overflow slot): the walk of \<open>updateIdx\<close>, returning the resolution where it stops.
\<close>

fun segRes :: "DurationSegment list \<Rightarrow> Duration \<Rightarrow> Duration" where
  "segRes [] d = 0"
| "segRes (s # ss) d =
     (if d < resolution s * slots s - resolution s sdiv 2 then resolution s
      else segRes ss (d - resolution s * slots s))"

text \<open>Three samples.\<close>

definition samples0 :: "Duration list" where
  "samples0 = [3000 * Millisecond, 256000 * Millisecond, 700 * Millisecond]"

fun isClose :: "('tr, 'ipf, 'rule, 'm) event \<Rightarrow> bool" where
  "isClose (eventClose done) = True"
| "isClose _ = False"

text \<open>The handler that the specification's table of message types gives each code.\<close>

definition handlerOf :: "MessageType \<Rightarrow> handler option" where
  "handlerOf t =
     (if t = querySeqMessage then Some handleQuerySequence
      else if t = queryMemberMessage then Some handleQueryMember
      else if t = queryMembersListMessage then Some handleQueryMembersList
      else if t = queryGroupMessage then Some handleQueryGroup
      else if t = operationMessage then Some handleOperation
      else if t = operationRelayMessage then Some handleOperationRelay
      else if t = retrieveMessage then Some handleRetrieve
      else if t = retrieveRelayMessage then Some handleRetrieveRelay
      else if t = statMessage then Some handleStat
      else if t = statRelayMessage then Some handleStatRelay
      else if t = opLogPullMessage then Some handleOPLogPull
      else None)"

text \<open>A server spec, a fresh runtime as \<^verbatim>\<open>newRuntime\<close> leaves it, and a run of events.\<close>

definition spec0 :: "(unit, unit, unit) Spec" where
  "spec0 = \<lparr>Port = 80, HTTPS = False, HTTP3 = False, KeepAlive = True, KeepAliveTimeout = ''60s'',
     MaxConnections = 100, CacheSize = 0, XForwardedFor = False, Tracing = None, IPFilter = None,
     Rules = Some []\<rparr>"

definition super0 :: "(unit, unit, unit, unit) supervisorSpec" where
  "super0 = \<lparr>Name = ''srv'', ObjectSpec = Some spec0\<rparr>"

definition runtime0 :: "(unit, unit, unit, unit) runtime" where
  "runtime0 = \<lparr>superSpec = super0, spec = None, server = None, server3 = None, roundNum = 0,
     state = stateNil, err = errNil, health = 0, limitListener = None, trace = []\<rparr>"

definition runtime2 :: "(unit, unit, unit, unit) runtime" where
  "runtime2 = runtime0\<lparr>spec := Some spec0, roundNum := 2, state := stateRunning, health := 1\<rparr>"

text \<open>
  Specs that serve HTTP/3 and that listen on port 81, and a run that reloads the runtime
  with HTTP/3, then with HTTP/1 on port 80, then with HTTP/1 on port 81.
\<close>

definition superH3 :: "(unit, unit, unit, unit) supervisorSpec" where
  "superH3 = \<lparr>Name = ''srv'', ObjectSpec = Some (spec0\<lparr>HTTP3 := True\<rparr>)\<rparr>"

definition super81 :: "(unit, unit, unit, unit) supervisorSpec" where
  "super81 = \<lparr>Name = ''srv'', ObjectSpec = Some (spec0\<lparr>Port := 81\<rparr>)\<rparr>"

definition eventsH3 :: "(unit, unit, unit, unit) event list" where
  "eventsH3 = [eventReload superH3 0, eventReload super0 0, eventReload super81 0]"

text \<open>What the runtime has done to the world when the loop stands.\<close>

definition traceOf ::
  "panic + (('tr, 'ipf, 'rule, 'm) runtime, ('tr, 'ipf, 'rule, 'm) event) loopEnd
     \<Rightarrow> serverEffect list" where
  "traceOf res =
     (case res of Inl p \<Rightarrow> [] | Inr (Waiting r) \<Rightarrow> trace r | Inr (Exited r es) \<Rightarrow> trace r)"

definition events0 :: "(unit, unit, unit, unit) event list" where
  "events0 = [eventReload super0 0, eventServeFailed 1 (Some ''bind''), eventCheckFailed]"

text \<open>Requests: one of an unknown type, an Operation, a QuerySeq, and one that came too late.\<close>

definition unknownRequest :: RequestEvent where
  "unknownRequest =
     \<lparr>RequestName = ''r'', RequestNodeName = ''n'', RequestPayload = [200], Closed = False\<rparr>"

definition operationRequest :: RequestEvent where
  "operationRequest =
     \<lparr>RequestName = ''r'', RequestNodeName = ''n'', RequestPayload = [5, 1], Closed = False\<rparr>"

definition querySeqRequest :: RequestEvent where
  "querySeqRequest =
     \<lparr>RequestName = ''r'', RequestNodeName = ''n'', RequestPayload = [1], Closed = False\<rparr>"

definition lateRequest :: RequestEvent where
  "lateRequest =
     \<lparr>RequestName = ''r'', RequestNodeName = ''n'', RequestPayload = [1], Closed = True\<rparr>"

text \<open>A member that has failed, the only one of its group.\<close>

definition deadMember :: Member where
  "deadMember = \<lparr>NodeName = ''n1'', Status = MemberFailed, NodeTags = [groupTagKey \<mapsto> ''g1'']\<rparr>"

text \<open>A valid configuration in an environment where the cluster and the log can be made.\<close>

definition lanConfig :: clusterConfig where
  "lanConfig = \<lparr>conf_NodeName = [], conf_NodeTags = Map.empty, BindAddress = ''0.0.0.0'',
     AdvertiseAddress = [], UDPBufferSize = 1400, conf_GossipInterval = 200 * Millisecond,
     MinLevel = []\<rparr>"

definition goodEnv :: createEnv where
  "goodEnv = \<lparr>ClusterHost = ''10.0.0.5'', PacketBufferBytes = 4000,
     GossipInterval = 200 * Millisecond, Stage = ''prod'', DefaultLANConfig = lanConfig,
     clusterCreateErr = None, newOPLogErr = None\<rparr>"

definition goodConf :: Config where
  "goodConf = \<lparr>ClusterGroup = ''g1'', ClusterMemberMode = WriteMode, ClusterMemberName = ''n1'',
     Peers = [], OPLogMaxSeqGapToPull = 5, OPLogPullMaxCountOnce = 5,
     OPLogPullInterval = 10 * Second, OPLogPullTimeout = 30 * Second\<rparr>"

definition freshCluster :: GatewayCluster where
  "freshCluster = projr (NewGatewayCluster goodEnv goodConf (Some 0))"

definition stopOk :: stopEnv where
  "stopOk = \<lparr>leaveErr = None, pollsUntilLeft = Some 2, clusterStopErr = None, logCloseErr = None\<rparr>"

definition stopLeaveFails :: stopEnv where
  "stopLeaveFails = stopOk\<lparr>leaveErr := Some ''leave failed''\<rparr>"

section \<open>The sampler's slot index\<close>

lemma sdiv_nonneg: "0 \<le> (a::int) \<Longrightarrow> 0 < b \<Longrightarrow> a sdiv b = a div b"
  by (simp add: signed_divide_int_def sgn_if)

lemma int_div_less_slots:
  fixes a r n :: int
  assumes "a < r * n" and "0 < r"
  shows "a div r < n"
proof (rule ccontr)
  assume "\<not> a div r < n"
  then have "n \<le> a div r" by simp
  then have "r * n \<le> r * (a div r)" using assms(2) by (simp add: mult_left_mono)
  also have "\<dots> \<le> a"
  proof -
    have "a = r * (a div r) + a mod r" by simp
    moreover have "0 \<le> a mod r" using assms(2) by simp
    ultimately show ?thesis by linarith
  qed
  finally show False using assms(1) by simp
qed

text \<open>
  With resolutions that do not decrease along the table, a duration that is at least minus
  half a resolution stays so in the next segment, and the index never leaves the slots of
  the segments walked through.
\<close>

lemma updateIdx_bounds:
  "sorted_wrt (\<lambda>a b. resolution a \<le> resolution b) segs \<Longrightarrow>
   \<forall>s\<in>set segs. 0 < resolution s \<and> 0 \<le> slots s \<Longrightarrow>
   (\<forall>s\<in>set segs. 0 \<le> d + resolution s div 2) \<Longrightarrow>
   idx \<le> updateIdx segs d idx \<and> updateIdx segs d idx \<le> idx + sum_list (map slots segs)"
proof (induction segs arbitrary: d idx)
  case Nil
  then show ?case by simp
next
  case (Cons s ss)
  let ?r = "resolution s" and ?n = "slots s"
  have r: "0 < ?r" and n: "0 \<le> ?n" using Cons.prems(2) by auto
  have h: "?r sdiv 2 = ?r div 2" using r by (simp add: sdiv_nonneg)
  have d0: "0 \<le> d + ?r div 2" using Cons.prems(3) by auto
  show ?case
  proof (cases "d < ?r * ?n - ?r sdiv 2")
    case True
    have q: "(d + ?r sdiv 2) sdiv ?r = (d + ?r div 2) div ?r"
      using d0 r h by (simp add: sdiv_nonneg)
    have lo: "0 \<le> (d + ?r div 2) div ?r" using d0 r by (simp add: pos_imp_zdiv_nonneg_iff)
    have "d + ?r div 2 < ?r * ?n" using True h by simp
    then have hi: "(d + ?r div 2) div ?r < ?n" using r
      by (rule int_div_less_slots)
    have sl: "0 \<le> sum_list (map slots ss)" using Cons.prems(2) by (intro sum_list_nonneg) auto
    show ?thesis using True q lo hi h sl by (simp add: Let_def)
  next
    case False
    have s1: "sorted_wrt (\<lambda>a b. resolution a \<le> resolution b) ss" using Cons.prems(1) by simp
    have s2: "\<forall>s\<in>set ss. 0 < resolution s \<and> 0 \<le> slots s" using Cons.prems(2) by simp
    have s3: "\<forall>t\<in>set ss. 0 \<le> (d - ?r * ?n) + resolution t div 2"
    proof
      fix t assume t: "t \<in> set ss"
      then have "?r \<le> resolution t" using Cons.prems(1) by auto
      then have "?r div 2 \<le> resolution t div 2" by (simp add: zdiv_mono1)
      then show "0 \<le> (d - ?r * ?n) + resolution t div 2" using False h by simp
    qed
    from Cons.IH[OF s1 s2 s3, of "idx + ?n"] n False show ?thesis by (simp add: Let_def)
  qed
qed

lemma updateIdx_overflow:
  "\<forall>s\<in>set segs. 0 < resolution s \<and> 0 \<le> slots s \<Longrightarrow>
   coverage segs \<le> d \<Longrightarrow>
   updateIdx segs d idx = idx + sum_list (map slots segs)"
proof (induction segs arbitrary: d idx)
  case Nil
  then show ?case by simp
next
  case (Cons s ss)
  let ?r = "resolution s" and ?n = "slots s"
  have r: "0 < ?r" and n: "0 \<le> ?n" using Cons.prems(1) by auto
  have h: "0 \<le> ?r sdiv 2" using r by (simp add: sdiv_nonneg)
  have rest: "0 \<le> coverage ss"
    unfolding coverage_def using Cons.prems(1) by (intro sum_list_nonneg) auto
  have cov: "coverage (s # ss) = ?r * ?n + coverage ss" by (simp add: coverage_def)
  have "\<not> d < ?r * ?n - ?r sdiv 2" using Cons.prems(2) cov rest h by linarith
  moreover have "coverage ss \<le> d - ?r * ?n" using Cons.prems(2) cov by linarith
  ultimately show ?case using Cons.IH[of "d - ?r * ?n" "idx + ?n"] Cons.prems(1)
    by (simp add: Let_def)
qed

lemma segments_wf: "\<forall>s\<in>set segments. 0 < resolution s \<and> 0 \<le> slots s"
  by (simp add: segments_def seg_def Millisecond_def)

lemma segments_sorted: "sorted_wrt (\<lambda>a b. resolution a \<le> resolution b) segments"
  by (simp add: segments_def seg_def Millisecond_def)

lemma segments_slots: "sum_list (map slots segments) = 2000"
  by (simp add: segments_def seg_def)

lemma segments_coverage: "coverage segments = 257000 * Millisecond"
  by (simp add: coverage_def segments_def seg_def Millisecond_def)

lemma totalSlots_segments: "totalSlots segments = 2001"
  by (simp add: totalSlots_def segments_def seg_def)

lemma segments_half: "0 \<le> d \<Longrightarrow> \<forall>s\<in>set segments. 0 \<le> d + resolution s div 2"
  by (simp add: segments_def seg_def Millisecond_def)

lemma updateIdx_negative: "updateIdx segments (- 2 * Millisecond) 0 = - 1"
  by (simp add: segments_def seg_def Millisecond_def signed_divide_int_def)

lemma updateIdx_segments_range:
  assumes "0 \<le> d"
  shows "0 \<le> updateIdx segments d 0 \<and> updateIdx segments d 0 \<le> 2000"
  using updateIdx_bounds [OF segments_sorted segments_wf segments_half [OF assms], of 0]
  by (simp add: segments_slots)

text \<open>
  C10. For a duration \<open>d \<ge> 0\<close> the slot index that \<^verbatim>\<open>Update\<close> computes lies between 0 and
  2000. The slice \<^verbatim>\<open>NewDurationSampler\<close> makes has 2001 entries, one more than the segments
  have slots, so \<^verbatim>\<open>Update\<close> on a sampler of that length does not panic: it adds one to the
  counter and one to the slot of that index, and changes nothing else. A duration at or
  beyond the coverage of the table (257000 ms) is counted in the last slot, 2000. Some
  negative duration gives a negative index, on which \<^verbatim>\<open>Update\<close> panics: \<open>d \<ge> 0\<close> is needed.
\<close>

theorem update_index_in_bounds:
  assumes "0 \<le> d"
  shows "0 \<le> updateIdx segments d 0 \<and> updateIdx segments d 0 \<le> 2000
       \<and> totalSlots segments = 1 + sum_list (map slots segments)
       \<and> length (durations NewDurationSampler) = 2001
       \<and> (\<forall>ds. length (durations ds) = 2001 \<longrightarrow>
             Update ds d =
               Inr (ds\<lparr>count := count ds + 1,
                       durations := (durations ds)
                         [nat (updateIdx segments d 0) :=
                            durations ds ! nat (updateIdx segments d 0) + 1]\<rparr>)
             \<and> (\<exists>ds'. Update ds d = Inr ds' \<and> length (durations ds') = 2001))
       \<and> (coverage segments \<le> d \<longrightarrow>
             updateIdx segments d 0 = 2000 \<and>
             (\<forall>ds. length (durations ds) = 2001 \<longrightarrow>
                Update ds d =
                  Inr (ds\<lparr>count := count ds + 1,
                          durations := (durations ds)[2000 := durations ds ! 2000 + 1]\<rparr>)))
       \<and> coverage segments = 257000 * Millisecond
       \<and> (\<exists>d'<0. updateIdx segments d' 0 < 0 \<and>
             (\<forall>ds. Update ds d' =
                Inl (IndexOutOfRange (updateIdx segments d' 0) (length (durations ds)))))"
proof -
  note rng = updateIdx_segments_range [OF assms]
  have upd: "\<forall>ds. length (durations ds) = 2001 \<longrightarrow>
             Update ds d =
               Inr (ds\<lparr>count := count ds + 1,
                       durations := (durations ds)
                         [nat (updateIdx segments d 0) :=
                            durations ds ! nat (updateIdx segments d 0) + 1]\<rparr>)"
    using rng by (simp add: Update_def Let_def)
  have len: "\<forall>ds. length (durations ds) = 2001 \<longrightarrow>
             (\<exists>ds'. Update ds d = Inr ds' \<and> length (durations ds') = 2001)"
    using upd by simp
  have ovf: "coverage segments \<le> d \<longrightarrow> updateIdx segments d 0 = 2000"
    using updateIdx_overflow [OF segments_wf, of d 0] by (simp add: segments_slots)
  have ovf2: "coverage segments \<le> d \<longrightarrow>
             (\<forall>ds. length (durations ds) = 2001 \<longrightarrow>
                Update ds d =
                  Inr (ds\<lparr>count := count ds + 1,
                          durations := (durations ds)[2000 := durations ds ! 2000 + 1]\<rparr>))"
    using ovf upd by auto
  have neg: "\<exists>d'<0. updateIdx segments d' 0 < 0 \<and>
             (\<forall>ds. Update ds d' =
                Inl (IndexOutOfRange (updateIdx segments d' 0) (length (durations ds))))"
    using updateIdx_negative
    by (intro exI [of _ "- 2 * Millisecond"]) (simp add: Millisecond_def Update_def Let_def)
  have a: "0 \<le> updateIdx segments d 0 \<and> updateIdx segments d 0 \<le> 2000
       \<and> totalSlots segments = 1 + sum_list (map slots segments)
       \<and> length (durations NewDurationSampler) = 2001
       \<and> coverage segments = 257000 * Millisecond"
    using rng segments_coverage totalSlots_segments
    by (simp add: NewDurationSampler_def segments_slots)
  show ?thesis using a upd len ovf ovf2 neg by blast
qed

theorem update_index_in_bounds_witness:
  "(0::int) \<le> 300000 * Millisecond \<and> coverage segments \<le> 300000 * Millisecond
   \<and> updateIdx segments (300000 * Millisecond) 0 = 2000
   \<and> Update NewDurationSampler (300000 * Millisecond) =
       Inr (NewDurationSampler\<lparr>count := 1, durations := (replicate 2001 0)[2000 := 1]\<rparr>)"
proof -
  have h: "(0::int) \<le> 300000 * Millisecond" by (simp add: Millisecond_def)
  have c: "coverage segments \<le> 300000 * Millisecond"
    by (simp add: segments_coverage Millisecond_def)
  have l: "length (durations NewDurationSampler) = 2001"
    by (simp add: NewDurationSampler_def totalSlots_segments)
  have n: "durations NewDurationSampler = replicate 2001 0" "count NewDurationSampler = 0"
    by (simp_all add: NewDurationSampler_def totalSlots_segments)
  from update_index_in_bounds [OF h] h c l n show ?thesis by simp
qed

section \<open>The sampler's percentiles\<close>

lemma flatScan_append:
  "flatScan ds tot (xs @ ys) st =
     (case flatScan ds tot xs st of
        (st1, True) \<Rightarrow> (st1, True)
      | (st1, False) \<Rightarrow> flatScan ds tot ys st1)"
proof (induction xs arbitrary: st)
  case Nil
  then show ?case by simp
next
  case (Cons x xs)
  obtain cnt di result pi where st: "st = (cnt, di, result, pi)" by (cases st) auto
  show ?case unfolding st by (simp add: Let_def Cons.IH split: prod.splits)
qed

lemma slotsLoop_flat:
  "0 \<le> i \<Longrightarrow> i \<le> slots s \<Longrightarrow>
   slotsLoop ds tot base s i st =
     flatScan ds tot (map (\<lambda>j. (base + resolution s * int j) sdiv Millisecond) [nat i..<nat (slots s)]) st"
proof (induction "nat (slots s - i)" arbitrary: i st)
  case 0
  then have "i = slots s" by simp
  obtain cnt di result pi where st: "st = (cnt, di, result, pi)" by (cases st) auto
  show ?case unfolding st using \<open>i = slots s\<close> by (simp add: slotsLoop.simps)
next
  case (Suc n)
  then have lt: "i < slots s" by linarith
  obtain cnt di result pi where st: "st = (cnt, di, result, pi)" by (cases st) auto
  have up: "[nat i..<nat (slots s)] = nat i # [nat (i + 1)..<nat (slots s)]"
    using lt Suc.prems by (simp add: upt_conv_Cons nat_add_distrib)
  have n: "n = nat (slots s - (i + 1))" using Suc.hyps(2) by linarith
  have IH: "\<And>st. slotsLoop ds tot base s (i + 1) st =
     flatScan ds tot (map (\<lambda>j. (base + resolution s * int j) sdiv Millisecond) [nat (i + 1)..<nat (slots s)]) st"
    using Suc.hyps(1)[OF n] Suc.prems lt by simp
  show ?case unfolding st
    apply (subst slotsLoop.simps)
    using lt Suc.prems by (simp add: up IH Let_def split: prod.splits)
qed

lemma segmentsLoop_flat:
  "\<forall>s\<in>set segs. 0 \<le> slots s \<Longrightarrow>
   segmentsLoop ds tot base segs st = flatScan ds tot (slotReps base segs) st"
proof (induction segs arbitrary: base st)
  case Nil
  then show ?case by simp
next
  case (Cons s ss)
  have "slotsLoop ds tot base s 0 st =
     flatScan ds tot (map (\<lambda>j. (base + resolution s * int j) sdiv Millisecond) [0..<nat (slots s)]) st"
    using slotsLoop_flat[of 0 s ds tot base st] Cons.prems by simp
  then show ?case using Cons by (simp add: flatScan_append split: prod.splits bool.splits)
qed

lemma Percentiles_finish:
  "Percentiles ds =
     finish (segmentsLoop ds (unat (count ds)) 0 segments (0, 0, replicate (length percentiles) 0, 0))"
  by (simp add: Percentiles_def finish_def split: prod.splits bool.splits)

lemma cumWord_Suc:
  "j < length (durations ds) \<Longrightarrow> cumWord ds (Suc j) = cumWord ds j + ucast (durations ds ! j)"
  by (simp add: cumWord_def take_Suc_conv_app_nth)

lemma length_percentiles [simp]: "length percentiles = 7"
  by (simp add: percentiles_def)

lemma float_ge_step:
  "k < 6 \<Longrightarrow> float_ge c tot (percentiles ! Suc k) \<Longrightarrow> float_ge c tot (percentiles ! k)"
proof -
  assume k: "k < 6" and g: "float_ge c tot (percentiles ! Suc k)"
  from k have "k = 0 \<or> k = 1 \<or> k = 2 \<or> k = 3 \<or> k = 4 \<or> k = 5" by arith
  then show ?thesis using g
    by (auto simp: float_ge_def percentiles_def split: if_splits)
qed

lemma float_ge_anti:
  "k \<le> k' \<Longrightarrow> k' < 7 \<Longrightarrow> float_ge c tot (percentiles ! k') \<Longrightarrow> float_ge c tot (percentiles ! k)"
proof (induction k' arbitrary: k)
  case 0
  then show ?case by simp
next
  case (Suc k')
  show ?case
  proof (cases "k = Suc k'")
    case True
    then show ?thesis using Suc.prems by simp
  next
    case False
    then have "k \<le> k'" using Suc.prems by simp
    moreover have "float_ge c tot (percentiles ! k')" using float_ge_step[of k' c tot] Suc.prems by simp
    ultimately show ?thesis using Suc.IH[of k] Suc.prems by simp
  qed
qed

lemma fillSentinel_nth:
  "length result = 7 \<Longrightarrow> k < 7 \<Longrightarrow>
   length (fillSentinel result pi) = 7 \<and>
   fillSentinel result pi ! k = (if k < pi then result ! k else 9999999)"
proof (induction result pi rule: fillSentinel.induct)
  case (1 result pi)
  show ?case
  proof (cases "pi < length percentiles")
    case True
    then show ?thesis using "1" by (subst fillSentinel.simps, subst (2) fillSentinel.simps) (auto simp: nth_list_update)
  next
    case False
    then show ?thesis using "1" by (subst fillSentinel.simps, subst (2) fillSentinel.simps) auto
  qed
qed

lemma whileReached_char:
  "length result = 7 \<Longrightarrow> whileReached c tot ms result pi = (result1, pi1, ret) \<Longrightarrow>
   pi \<le> pi1 \<and> length result1 = 7 \<and>
   (\<forall>k. k < pi \<or> pi1 \<le> k \<longrightarrow> result1 ! k = result ! k) \<and>
   (\<forall>k. pi \<le> k \<and> k < pi1 \<longrightarrow> result1 ! k = ms \<and> float_ge c tot (percentiles ! k)) \<and>
   (pi < 7 \<longrightarrow> pi1 \<le> 7) \<and>
   (pi1 < 7 \<longrightarrow> \<not> float_ge c tot (percentiles ! pi1)) \<and>
   (ret \<longleftrightarrow> pi1 = 7 \<and> pi < 7)"
proof (induction c tot ms result pi arbitrary: result1 pi1 ret rule: whileReached.induct)
  case (1 c tot ms result pi)
  show ?case
  proof (cases "pi < length percentiles \<and> float_ge c tot (percentiles ! pi)")
    case False
    then have "whileReached c tot ms result pi = (result, pi, False)"
      by (subst whileReached.simps) auto
    then show ?thesis using "1.prems" False by auto
  next
    case True
    show ?thesis
    proof (cases "pi + 1 = length percentiles")
      case last: True
      then have "whileReached c tot ms result pi = (result[pi := ms], pi + 1, True)"
        using True by (subst whileReached.simps) auto
      then have e: "result1 = result[pi := ms]" "pi1 = pi + 1" "ret" using "1.prems" by auto
      have c: "\<forall>k. pi \<le> k \<and> k < pi1 \<longrightarrow> result1 ! k = ms \<and> float_ge c tot (percentiles ! k)"
      proof (intro allI impI)
        fix k assume "pi \<le> k \<and> k < pi1"
        then have "k = pi" using e by arith
        then show "result1 ! k = ms \<and> float_ge c tot (percentiles ! k)"
          using e True "1.prems"(1) by simp
      qed
      have o: "pi \<le> pi1 \<and> length result1 = 7 \<and>
         (\<forall>k. k < pi \<or> pi1 \<le> k \<longrightarrow> result1 ! k = result ! k) \<and>
         (pi < 7 \<longrightarrow> pi1 \<le> 7) \<and>
         (pi1 < 7 \<longrightarrow> \<not> float_ge c tot (percentiles ! pi1)) \<and>
         (ret \<longleftrightarrow> pi1 = 7 \<and> pi < 7)"
        using e True last "1.prems"(1) by (auto simp: nth_list_update)
      show ?thesis using c o by blast
    next
      case more: False
      then have w: "whileReached c tot ms result pi = whileReached c tot ms (result[pi := ms]) (pi + 1)"
        using True by (subst whileReached.simps) auto
      have l: "length (result[pi := ms]) = 7" using "1.prems"(1) by simp
      have r: "whileReached c tot ms (result[pi := ms]) (pi + 1) = (result1, pi1, ret)"
        using w "1.prems"(2) by simp
      note IH = "1.IH"[OF True more l r]
      have a: "pi \<le> pi1" using IH by simp
      have b: "\<forall>k. k < pi \<or> pi1 \<le> k \<longrightarrow> result1 ! k = result ! k"
        using IH by (auto simp: nth_list_update)
      have c: "\<forall>k. pi \<le> k \<and> k < pi1 \<longrightarrow> result1 ! k = ms \<and> float_ge c tot (percentiles ! k)"
      proof (intro allI impI)
        fix k assume k: "pi \<le> k \<and> k < pi1"
        show "result1 ! k = ms \<and> float_ge c tot (percentiles ! k)"
        proof (cases "k = pi")
          case True
          then have "result1 ! k = (result[pi := ms]) ! k" using IH by simp
          then show ?thesis using True \<open>pi < length percentiles \<and> float_ge c tot (percentiles ! pi)\<close> "1.prems"(1)
            by simp
        next
          case False
          then show ?thesis using IH k by simp
        qed
      qed
      have d: "(pi < 7 \<longrightarrow> pi1 \<le> 7) \<and> (pi1 < 7 \<longrightarrow> \<not> float_ge c tot (percentiles ! pi1)) \<and>
               (ret \<longleftrightarrow> pi1 = 7 \<and> pi < 7)"
        using IH True more by auto
      show ?thesis using a b c d IH by blast
    qed
  qed
qed

lemma flatScan_keeps:
  "length result = 7 \<Longrightarrow> k < pi \<Longrightarrow> k < 7 \<Longrightarrow>
   finish (flatScan ds tot reps (cnt, di, result, pi)) ! k = result ! k"
proof (induction reps arbitrary: cnt di result pi)
  case Nil
  then show ?case using fillSentinel_nth[of result k pi] by (simp add: finish_def)
next
  case (Cons ms rest)
  let ?cnt1 = "cnt + ucast (durations ds ! di)"
  obtain result1 pi1 ret where w: "whileReached (unat ?cnt1) tot ms result pi = (result1, pi1, ret)"
    by (cases "whileReached (unat ?cnt1) tot ms result pi") auto
  note ch = whileReached_char[OF Cons.prems(1) w]
  have k1: "result1 ! k = result ! k" using ch Cons.prems(2) by simp
  show ?case
  proof (cases ret)
    case True
    then show ?thesis using w k1 by (simp add: finish_def Let_def)
  next
    case False
    have "finish (flatScan ds tot rest (?cnt1, di + 1, result1, pi1)) ! k = result1 ! k"
      using Cons.IH[of result1 pi1 ?cnt1 "di + 1"] ch Cons.prems by simp
    then show ?thesis using w k1 False by (simp add: Let_def)
  qed
qed

lemma flatScan_firstRep:
  "length result = 7 \<Longrightarrow> pi < 7 \<Longrightarrow> cnt = cumWord ds di \<Longrightarrow>
   di + length reps \<le> length (durations ds) \<Longrightarrow> pi \<le> k \<Longrightarrow> k < 7 \<Longrightarrow>
   finish (flatScan ds tot reps (cnt, di, result, pi)) ! k =
     firstRep (\<lambda>j. float_ge (unat (cumWord ds (Suc j))) tot (percentiles ! k)) di reps"
proof (induction reps arbitrary: cnt di result pi)
  case Nil
  then show ?case using fillSentinel_nth[of result k pi] by (simp add: finish_def)
next
  case (Cons ms rest)
  let ?cnt1 = "cnt + ucast (durations ds ! di)"
  let ?G = "\<lambda>j. float_ge (unat (cumWord ds (Suc j))) tot (percentiles ! k)"
  have di: "di < length (durations ds)" using Cons.prems(4) by simp
  have c1: "?cnt1 = cumWord ds (Suc di)" using cumWord_Suc[OF di] Cons.prems(3) by simp
  obtain result1 pi1 ret where w: "whileReached (unat ?cnt1) tot ms result pi = (result1, pi1, ret)"
    by (cases "whileReached (unat ?cnt1) tot ms result pi") auto
  note ch = whileReached_char[OF Cons.prems(1) w]
  have l1: "length result1 = 7" using ch by simp
  show ?case
  proof (cases "k < pi1")
    case True
    then have g: "?G di" and r: "result1 ! k = ms" using ch Cons.prems(5) c1 by auto
    have "finish (flatScan ds tot (ms # rest) (cnt, di, result, pi)) ! k = ms"
    proof (cases ret)
      case True
      then show ?thesis using w r by (simp add: finish_def Let_def)
    next
      case False
      have "finish (flatScan ds tot rest (?cnt1, di + 1, result1, pi1)) ! k = result1 ! k"
        using flatScan_keeps[OF l1 True Cons.prems(6)] by simp
      then show ?thesis using w r False by (simp add: Let_def)
    qed
    then show ?thesis using g by simp
  next
    case False
    then have p1: "pi1 \<le> k" "pi1 < 7" using Cons.prems(6) by auto
    then have nr: "\<not> ret" using ch by simp
    have "\<not> float_ge (unat ?cnt1) tot (percentiles ! pi1)" using ch p1 by simp
    then have ng: "\<not> ?G di" using float_ge_anti[OF p1(1) Cons.prems(6)] c1 by auto
    have "finish (flatScan ds tot rest (?cnt1, di + 1, result1, pi1)) ! k = firstRep ?G (Suc di) rest"
      using Cons.IH[OF l1 p1(2), of ?cnt1 "di + 1"] c1 Cons.prems(4) p1(1) Cons.prems(6) by simp
    then show ?thesis using w nr ng by (simp add: Let_def)
  qed
qed

lemma firstRep_hit:
  "i < length reps \<Longrightarrow> G (j + i) \<Longrightarrow> \<forall>i'<i. \<not> G (j + i') \<Longrightarrow> firstRep G j reps = reps ! i"
proof (induction reps arbitrary: i j)
  case Nil
  then show ?case by simp
next
  case (Cons ms rest)
  show ?case
  proof (cases i)
    case 0
    then show ?thesis using Cons.prems by simp
  next
    case (Suc i0)
    have n0: "\<not> G j" using Cons.prems(3) Suc by force
    have "firstRep G (Suc j) rest = rest ! i0"
    proof (rule Cons.IH)
      show "i0 < length rest" using Cons.prems(1) Suc by simp
      show "G (Suc j + i0)" using Cons.prems(2) Suc by simp
      show "\<forall>i'<i0. \<not> G (Suc j + i')"
      proof (intro allI impI)
        fix i' assume "i' < i0"
        then have "Suc i' < i" using Suc by simp
        then show "\<not> G (Suc j + i')" using Cons.prems(3) by fastforce
      qed
    qed
    then show ?thesis using n0 Suc by simp
  qed
qed

lemma firstRep_miss:
  "\<forall>i<length reps. \<not> G (j + i) \<Longrightarrow> firstRep G j reps = 9999999"
proof (induction reps arbitrary: j)
  case Nil
  then show ?case by simp
next
  case (Cons ms rest)
  have n0: "\<not> G j" using Cons.prems by force
  have "\<forall>i<length rest. \<not> G (Suc j + i)"
  proof (intro allI impI)
    fix i assume "i < length rest"
    then have "Suc i < length (ms # rest)" by simp
    then show "\<not> G (Suc j + i)" using Cons.prems by fastforce
  qed
  then show ?case using Cons.IH[of "Suc j"] n0 by simp
qed

lemma length_slotReps:
  "\<forall>s\<in>set segs. 0 \<le> slots s \<Longrightarrow> int (length (slotReps base segs)) = sum_list (map slots segs)"
  by (induction segs arbitrary: base) auto

text \<open>The flat description of Percentiles.\<close>

lemma Percentiles_firstRep:
  assumes "length (durations ds) = 2001" "k < 7"
  shows "Percentiles ds ! k =
     firstRep (\<lambda>j. float_ge (unat (cumWord ds (Suc j))) (unat (count ds)) (percentiles ! k)) 0
       (slotReps 0 segments)"
proof -
  have wf: "\<forall>s\<in>set segments. 0 \<le> slots s" using segments_wf by auto
  have len: "length (slotReps 0 segments) = 2000"
    using length_slotReps[OF wf, of 0] segments_slots by simp
  have "Percentiles ds = finish (flatScan ds (unat (count ds)) (slotReps 0 segments)
           (0, 0, replicate 7 0, 0))"
    using segmentsLoop_flat[OF wf] by (simp add: Percentiles_finish)
  moreover have "finish (flatScan ds (unat (count ds)) (slotReps 0 segments) (0, 0, replicate 7 0, 0)) ! k =
     firstRep (\<lambda>j. float_ge (unat (cumWord ds (Suc j))) (unat (count ds)) (percentiles ! k)) 0
       (slotReps 0 segments)"
    by (rule flatScan_firstRep) (use assms len in \<open>simp_all add: cumWord_def\<close>)
  ultimately show ?thesis by simp
qed

lemma ucast_of_nat_small:
  "m < 2 ^ 32 \<Longrightarrow> (ucast (of_nat m :: 32 word) :: 64 word) = of_nat m"
  by (simp add: unsigned_of_nat take_bit_nat_eq_self)

lemma unat_of_nat_small:
  "m < 2 ^ 64 \<Longrightarrow> unat (of_nat m :: 64 word) = m"
  by (simp add: unat_of_nat)

lemma slotOf_le: "0 \<le> d \<Longrightarrow> slotOf d \<le> 2000"
  using updateIdx_segments_range[of d] unfolding slotOf_def by linarith

lemma Update_nonneg:
  assumes "0 \<le> d" "length (durations ds) = 2001"
  shows "Update ds d = Inr (ds\<lparr>count := count ds + 1,
            durations := (durations ds)[slotOf d := durations ds ! slotOf d + 1]\<rparr>)"
  using updateIdx_segments_range[OF assms(1)] assms(2)
  by (simp add: Update_def Let_def slotOf_def)

lemma updates_histogram:
  "\<forall>d\<in>set xs. 0 \<le> d \<Longrightarrow> length (durations ds0) = 2001 \<Longrightarrow>
   \<exists>ds. updates ds0 xs = Inr ds \<and> length (durations ds) = 2001 \<and>
        count ds = count ds0 + of_nat (length xs) \<and>
        (\<forall>j<2001. durations ds ! j =
            durations ds0 ! j + of_nat (length (filter (\<lambda>x. slotOf x = j) xs)))"
proof (induction xs arbitrary: ds0)
  case Nil
  then show ?case by simp
next
  case (Cons d xs)
  let ?ds1 = "ds0\<lparr>count := count ds0 + 1,
            durations := (durations ds0)[slotOf d := durations ds0 ! slotOf d + 1]\<rparr>"
  have d0: "0 \<le> d" using Cons.prems(1) by simp
  have u: "Update ds0 d = Inr ?ds1" using Update_nonneg[OF d0 Cons.prems(2)] .
  have l1: "length (durations ?ds1) = 2001" using Cons.prems(2) by simp
  have rest: "\<forall>d\<in>set xs. 0 \<le> d" using Cons.prems(1) by simp
  from Cons.IH[OF rest l1] obtain ds where ds:
    "updates ?ds1 xs = Inr ds" "length (durations ds) = 2001"
    "count ds = count ?ds1 + of_nat (length xs)"
    "\<forall>j<2001. durations ds ! j =
            durations ?ds1 ! j + of_nat (length (filter (\<lambda>x. slotOf x = j) xs))"
    by blast
  have a: "updates ds0 (d # xs) = Inr ds" using u ds(1) by simp
  have b: "count ds = count ds0 + of_nat (length (d # xs))" using ds(3) by simp
  have c: "\<forall>j<2001. durations ds ! j =
            durations ds0 ! j + of_nat (length (filter (\<lambda>x. slotOf x = j) (d # xs)))"
  proof (intro allI impI)
    fix j :: nat assume j: "j < 2001"
    have sl: "slotOf d < length (durations ds0)" using slotOf_le[OF d0] Cons.prems(2) by simp
    show "durations ds ! j =
            durations ds0 ! j + of_nat (length (filter (\<lambda>x. slotOf x = j) (d # xs)))"
      using ds(4) j sl by (cases "slotOf d = j") (auto simp: nth_list_update)
  qed
  show ?case using a b c ds(2) by blast
qed

lemma filter_count_split:
  "length (filter (\<lambda>x. f x < Suc j) xs) =
   length (filter (\<lambda>x. f x < j) xs) + length (filter (\<lambda>x. (f x :: nat) = j) xs)"
  by (induction xs) auto

lemma filter_count_le_length: "length (filter P xs) \<le> length xs"
  by simp

lemma cumWord_histogram:
  assumes "length (durations ds) = 2001"
    and "\<forall>j<2001. durations ds ! j = of_nat (length (filter (\<lambda>x. slotOf x = j) xs))"
    and "length xs < 2 ^ 32"
    and "j \<le> 2001"
  shows "cumWord ds j = of_nat (length (filter (\<lambda>x. slotOf x < j) xs))"
  using assms(4)
proof (induction j)
  case 0
  then show ?case by (simp add: cumWord_def)
next
  case (Suc j)
  have j: "j < 2001" using Suc.prems by simp
  have small: "length (filter (\<lambda>x. slotOf x = j) xs) < 2 ^ 32"
    using assms(3) filter_count_le_length[of "\<lambda>x. slotOf x = j" xs] by linarith
  have "cumWord ds (Suc j) = cumWord ds j + ucast (durations ds ! j)"
    using cumWord_Suc[of j ds] j assms(1) by simp
  also have "\<dots> = of_nat (length (filter (\<lambda>x. slotOf x < j) xs))
                 + of_nat (length (filter (\<lambda>x. slotOf x = j) xs))"
    using Suc.IH j assms(2) ucast_of_nat_small[OF small] by simp
  also have "\<dots> = of_nat (length (filter (\<lambda>x. slotOf x < Suc j) xs))"
    by (simp add: filter_count_split[of slotOf j xs])
  finally show ?case .
qed

text \<open>The cumulative counts the scan sees are the numbers of samples up to each slot.\<close>

lemma recorded_counts:
  assumes "\<forall>d\<in>set xs. 0 \<le> d" "length xs < 2 ^ 32"
  shows "\<exists>ds. updates NewDurationSampler xs = Inr ds \<and> length (durations ds) = 2001 \<and>
           unat (count ds) = length xs \<and>
           (\<forall>j<2001. unat (cumWord ds (Suc j)) = length (filter (\<lambda>x. slotOf x \<le> j) xs))"
proof -
  have l0: "length (durations NewDurationSampler) = 2001"
    by (simp add: NewDurationSampler_def totalSlots_segments)
  from updates_histogram[OF assms(1) l0] obtain ds where ds:
    "updates NewDurationSampler xs = Inr ds" "length (durations ds) = 2001"
    "count ds = count NewDurationSampler + of_nat (length xs)"
    "\<forall>j<2001. durations ds ! j =
            durations NewDurationSampler ! j + of_nat (length (filter (\<lambda>x. slotOf x = j) xs))"
    by blast
  have big: "(2::nat) ^ 32 < 2 ^ 64" by simp
  have c: "unat (count ds) = length xs"
    using ds(3) assms(2) big unat_of_nat_small[of "length xs"] by (simp add: NewDurationSampler_def)
  have h: "\<forall>j<2001. durations ds ! j = of_nat (length (filter (\<lambda>x. slotOf x = j) xs))"
    using ds(4) by (simp add: NewDurationSampler_def totalSlots_segments)
  have cw: "\<forall>j<2001. unat (cumWord ds (Suc j)) = length (filter (\<lambda>x. slotOf x \<le> j) xs)"
  proof (intro allI impI)
    fix j :: nat assume j: "j < 2001"
    have "cumWord ds (Suc j) = of_nat (length (filter (\<lambda>x. slotOf x < Suc j) xs))"
      using cumWord_histogram[OF ds(2) h assms(2), of "Suc j"] j by simp
    moreover have "length (filter (\<lambda>x. slotOf x < Suc j) xs) < 2 ^ 64"
      using assms(2) big filter_count_le_length[of "\<lambda>x. slotOf x < Suc j" xs] by linarith
    ultimately have "unat (cumWord ds (Suc j)) = length (filter (\<lambda>x. slotOf x < Suc j) xs)"
      using unat_of_nat_small by simp
    then show "unat (cumWord ds (Suc j)) = length (filter (\<lambda>x. slotOf x \<le> j) xs)"
      by (simp add: less_Suc_eq_le)
  qed
  show ?thesis using ds(1,2) c cw by blast
qed

lemma updateIdx_mono:
  "sorted_wrt (\<lambda>a b. resolution a \<le> resolution b) segs \<Longrightarrow>
   \<forall>s\<in>set segs. 0 < resolution s \<and> 0 \<le> slots s \<Longrightarrow>
   (\<forall>s\<in>set segs. 0 \<le> d + resolution s div 2) \<Longrightarrow> d \<le> d' \<Longrightarrow>
   updateIdx segs d idx \<le> updateIdx segs d' idx"
proof (induction segs arbitrary: d d' idx)
  case Nil
  then show ?case by simp
next
  case (Cons s ss)
  let ?r = "resolution s" and ?n = "slots s"
  have r: "0 < ?r" and n: "0 \<le> ?n" using Cons.prems(2) by auto
  have h: "?r sdiv 2 = ?r div 2" using r by (simp add: sdiv_nonneg)
  have d0: "0 \<le> d + ?r div 2" using Cons.prems(3) by auto
  have d0': "0 \<le> d' + ?r div 2" using d0 Cons.prems(4) by linarith
  have s1: "sorted_wrt (\<lambda>a b. resolution a \<le> resolution b) ss" using Cons.prems(1) by simp
  have s2: "\<forall>s\<in>set ss. 0 < resolution s \<and> 0 \<le> slots s" using Cons.prems(2) by simp
  have half: "\<And>e. \<not> e < ?r * ?n - ?r sdiv 2 \<Longrightarrow> \<forall>t\<in>set ss. 0 \<le> (e - ?r * ?n) + resolution t div 2"
  proof
    fix e t assume e: "\<not> e < ?r * ?n - ?r sdiv 2" and t: "t \<in> set ss"
    then have "?r \<le> resolution t" using Cons.prems(1) by auto
    then have "?r div 2 \<le> resolution t div 2" by (simp add: zdiv_mono1)
    then show "0 \<le> (e - ?r * ?n) + resolution t div 2" using e h by simp
  qed
  show ?case
  proof (cases "d < ?r * ?n - ?r sdiv 2")
    case True
    have q: "(d + ?r sdiv 2) sdiv ?r = (d + ?r div 2) div ?r"
      using d0 r h by (simp add: sdiv_nonneg)
    show ?thesis
    proof (cases "d' < ?r * ?n - ?r sdiv 2")
      case dT: True
      have q': "(d' + ?r sdiv 2) sdiv ?r = (d' + ?r div 2) div ?r"
        using d0' r h by (simp add: sdiv_nonneg)
      have "(d + ?r div 2) div ?r \<le> (d' + ?r div 2) div ?r"
        using Cons.prems(4) r by (simp add: zdiv_mono1)
      then show ?thesis using True dT q q' by (simp add: Let_def)
    next
      case dF: False
      have "d + ?r div 2 < ?r * ?n" using True h by simp
      then have hi: "(d + ?r div 2) div ?r < ?n" using r by (rule int_div_less_slots)
      have "idx + ?n \<le> updateIdx ss (d' - ?r * ?n) (idx + ?n)"
        using updateIdx_bounds[OF s1 s2 half[OF dF], of "idx + ?n"] by simp
      then show ?thesis using True dF q hi by (simp add: Let_def)
    qed
  next
    case False
    then have dF: "\<not> d' < ?r * ?n - ?r sdiv 2" using Cons.prems(4) by linarith
    have "updateIdx ss (d - ?r * ?n) (idx + ?n) \<le> updateIdx ss (d' - ?r * ?n) (idx + ?n)"
      using Cons.IH[OF s1 s2 half[OF False], of "d' - ?r * ?n" "idx + ?n"] Cons.prems(4) by simp
    then show ?thesis using False dF by (simp add: Let_def)
  qed
qed

lemma slotOf_mono: "0 \<le> d \<Longrightarrow> d \<le> d' \<Longrightarrow> slotOf d \<le> slotOf d'"
  using updateIdx_mono[OF segments_sorted segments_wf segments_half, of d d' 0]
  unfolding slotOf_def by linarith

lemma rank_le_iff: "0 < b \<Longrightarrow> (rank (a, b) n \<le> C) = (a * n \<le> C * b)"
proof -
  assume b: "0 < b"
  have "(rank (a, b) n \<le> C) = ((a * n + b - 1) div b < Suc C)"
    unfolding rank_def fst_conv snd_conv by (rule less_Suc_eq_le [symmetric])
  also have "\<dots> = (a * n + b - 1 < Suc C * b)" using b by (simp add: div_less_iff_less_mult)
  also have "\<dots> = (a * n \<le> C * b)" using b by auto
  finally show ?thesis .
qed

lemma rank_bounds: "0 < a \<Longrightarrow> a \<le> b \<Longrightarrow> 0 < n \<Longrightarrow> 1 \<le> rank (a, b) n \<and> rank (a, b) n \<le> n"
proof -
  assume a: "0 < a" and ab: "a \<le> b" and n: "0 < n"
  have b: "0 < b" using a ab by simp
  have "a * n \<le> n * b" using ab by (simp add: mult.commute)
  then have hi: "rank (a, b) n \<le> n" using rank_le_iff[OF b, of a n n] by simp
  have "\<not> a * n \<le> 0 * b" using a n by simp
  then have "\<not> rank (a, b) n \<le> 0" using rank_le_iff[OF b, of a n 0] by simp
  then show ?thesis using hi by simp
qed

lemma filter_count_mono:
  "(\<And>x. x \<in> set xs \<Longrightarrow> P x \<Longrightarrow> Q x) \<Longrightarrow> length (filter P xs) \<le> length (filter Q xs)"
  by (induction xs) auto

lemma filter_count_sort: "length (filter P (sort xs)) = length (filter P (xs :: int list))"
  by (simp add: filter_sort)

lemma sorted_count_le:
  assumes "sorted ys" "r < length ys"
  shows "Suc r \<le> length (filter (\<lambda>x. x \<le> ys ! r) (ys :: int list))"
proof -
  have "\<forall>x\<in>set (take (Suc r) ys). x \<le> ys ! r"
  proof
    fix x assume "x \<in> set (take (Suc r) ys)"
    then obtain i where i: "i < Suc r" "x = ys ! i" using assms(2)
      by (auto simp: in_set_conv_nth)
    then show "x \<le> ys ! r" using assms by (simp add: sorted_nth_mono)
  qed
  then have "filter (\<lambda>x. x \<le> ys ! r) (take (Suc r) ys) = take (Suc r) ys" by simp
  moreover have "filter (\<lambda>x. x \<le> ys ! r) ys =
       filter (\<lambda>x. x \<le> ys ! r) (take (Suc r) ys) @ filter (\<lambda>x. x \<le> ys ! r) (drop (Suc r) ys)"
    by (metis append_take_drop_id filter_append)
  ultimately have "length (filter (\<lambda>x. x \<le> ys ! r) ys) \<ge> length (take (Suc r) ys)" by simp
  then show ?thesis using assms(2) by simp
qed

lemma sorted_count_less:
  assumes "sorted ys" "r < length ys"
  shows "length (filter (\<lambda>x. x < ys ! r) (ys :: int list)) \<le> r"
proof -
  have "\<forall>x\<in>set (drop r ys). \<not> x < ys ! r"
  proof
    fix x assume "x \<in> set (drop r ys)"
    then obtain i where i: "i < length ys - r" "x = ys ! (r + i)"
      by (auto simp: in_set_conv_nth)
    then have "ys ! r \<le> x" using assms by (simp add: sorted_nth_mono)
    then show "\<not> x < ys ! r" by simp
  qed
  then have "filter (\<lambda>x. x < ys ! r) (drop r ys) = []" by simp
  moreover have "filter (\<lambda>x. x < ys ! r) ys =
       filter (\<lambda>x. x < ys ! r) (take r ys) @ filter (\<lambda>x. x < ys ! r) (drop r ys)"
    by (metis append_take_drop_id filter_append)
  ultimately have "length (filter (\<lambda>x. x < ys ! r) ys) = length (filter (\<lambda>x. x < ys ! r) (take r ys))"
    by simp
  also have "\<dots> \<le> length (take r ys)" by (rule length_filter_le)
  finally show ?thesis by simp
qed

lemma truePercentile_in_set:
  assumes "0 < a" "a \<le> b" "xs \<noteq> []"
  shows "truePercentile (a, b) xs \<in> set xs"
proof -
  have "1 \<le> rank (a, b) (length xs) \<and> rank (a, b) (length xs) \<le> length xs"
    using rank_bounds[OF assms(1,2), of "length xs"] assms(3) by simp
  then have "rank (a, b) (length xs) - 1 < length xs" by linarith
  then have "rank (a, b) (length xs) - 1 < length (sort xs)" by simp
  then have "sort xs ! (rank (a, b) (length xs) - 1) \<in> set (sort xs)" by (rule nth_mem)
  then show ?thesis by (simp add: truePercentile_def)
qed

text \<open>The slot of the nearest-rank sample is the first slot whose cumulative count reaches the rank.\<close>

lemma nearest_rank_slot:
  assumes "0 < a" "a \<le> b" "xs \<noteq> []" "\<forall>d\<in>set xs. 0 \<le> d"
  defines "v \<equiv> truePercentile (a, b) xs"
  shows "rank (a, b) (length xs) \<le> length (filter (\<lambda>x. slotOf x \<le> slotOf v) xs)"
    and "j < slotOf v \<Longrightarrow> length (filter (\<lambda>x. slotOf x \<le> j) xs) < rank (a, b) (length xs)"
proof -
  let ?r = "rank (a, b) (length xs) - 1"
  let ?ys = "sort xs"
  have rb: "1 \<le> rank (a, b) (length xs)" "rank (a, b) (length xs) \<le> length xs"
    using rank_bounds[OF assms(1,2), of "length xs"] assms(3) by simp_all
  have "?r < length xs" using rb by linarith
  then have r: "?r < length ?ys" by simp
  have v: "v = ?ys ! ?r" by (simp add: v_def truePercentile_def)
  have vin: "v \<in> set xs" unfolding v_def using truePercentile_in_set[OF assms(1,2,3)] .
  have "Suc ?r \<le> length (filter (\<lambda>x. x \<le> v) ?ys)"
    unfolding v using sorted_count_le[of ?ys ?r] r by simp
  then have c1: "rank (a, b) (length xs) \<le> length (filter (\<lambda>x. x \<le> v) xs)"
    using rb by (simp add: filter_count_sort)
  have "length (filter (\<lambda>x. x \<le> v) xs) \<le> length (filter (\<lambda>x. slotOf x \<le> slotOf v) xs)"
    using assms(4) by (intro filter_count_mono) (auto intro: slotOf_mono)
  then show "rank (a, b) (length xs) \<le> length (filter (\<lambda>x. slotOf x \<le> slotOf v) xs)"
    using c1 by linarith
  assume j: "j < slotOf v"
  have "length (filter (\<lambda>x. x < v) ?ys) \<le> ?r"
    unfolding v using sorted_count_less[of ?ys ?r] r by simp
  then have c2: "length (filter (\<lambda>x. x < v) xs) < rank (a, b) (length xs)"
    using rb by (simp add: filter_count_sort)
  have "length (filter (\<lambda>x. slotOf x \<le> j) xs) \<le> length (filter (\<lambda>x. x < v) xs)"
  proof (intro filter_count_mono)
    fix x assume x: "x \<in> set xs" "slotOf x \<le> j"
    show "x < v"
    proof (rule ccontr)
      assume "\<not> x < v"
      then have "v \<le> x" by simp
      moreover have "0 \<le> v" using vin assms(4) by simp
      ultimately have "slotOf v \<le> slotOf x" by (rule slotOf_mono[rotated])
      then show False using x(2) j by simp
    qed
  qed
  then show "length (filter (\<lambda>x. slotOf x \<le> j) xs) < rank (a, b) (length xs)"
    using c2 by linarith
qed

lemma slotReps_Ns: "slotReps base segs = map (\<lambda>x. x sdiv Millisecond) (slotRepsNs base segs)"
  by (induction segs arbitrary: base) auto

lemma length_slotRepsNs:
  "\<forall>s\<in>set segs. 0 \<le> slots s \<Longrightarrow> int (length (slotRepsNs base segs)) = sum_list (map slots segs)"
  by (induction segs arbitrary: base) auto

lemma round_error:
  fixes d r :: int
  assumes "0 < r" "0 \<le> d + r div 2"
  shows "\<bar>r * ((d + r div 2) div r) - d\<bar> \<le> r div 2"
proof -
  let ?a = "d + r div 2"
  let ?i = "?a div r"
  have m: "?a = r * ?i + ?a mod r" by simp
  have lo: "0 \<le> ?a mod r" and hi: "?a mod r < r" using assms(1) by simp_all
  have h: "2 * (r div 2) \<le> r" "r \<le> 2 * (r div 2) + 1" by presburger+
  show ?thesis using m lo hi h by linarith
qed

lemma slot_rep_close:
  "sorted_wrt (\<lambda>a b. resolution a \<le> resolution b) segs \<Longrightarrow>
   \<forall>s\<in>set segs. 0 < resolution s \<and> 0 \<le> slots s \<Longrightarrow>
   (\<forall>s\<in>set segs. 0 \<le> d + resolution s div 2) \<Longrightarrow>
   updateIdx segs d idx < idx + sum_list (map slots segs) \<Longrightarrow>
   \<bar>slotRepsNs base segs ! nat (updateIdx segs d idx - idx) - (base + d)\<bar> \<le> segRes segs d div 2"
proof (induction segs arbitrary: d idx base)
  case Nil
  then show ?case by simp
next
  case (Cons s ss)
  let ?r = "resolution s" and ?n = "slots s"
  have r: "0 < ?r" and n: "0 \<le> ?n" using Cons.prems(2) by auto
  have h: "?r sdiv 2 = ?r div 2" using r by (simp add: sdiv_nonneg)
  have d0: "0 \<le> d + ?r div 2" using Cons.prems(3) by auto
  show ?case
  proof (cases "d < ?r * ?n - ?r sdiv 2")
    case True
    let ?i = "(d + ?r div 2) div ?r"
    have q: "(d + ?r sdiv 2) sdiv ?r = ?i" using d0 r h by (simp add: sdiv_nonneg)
    have lo: "0 \<le> ?i" using d0 r by (simp add: pos_imp_zdiv_nonneg_iff)
    have "d + ?r div 2 < ?r * ?n" using True h by simp
    then have hi: "?i < ?n" using r by (rule int_div_less_slots)
    have idx: "updateIdx (s # ss) d idx - idx = ?i" using True q by (simp add: Let_def)
    have lt: "nat ?i < nat ?n" using lo hi by linarith
    have "slotRepsNs base (s # ss) ! nat ?i = base + ?r * int (nat ?i)"
      using lt by (simp add: nth_append)
    then have rep: "slotRepsNs base (s # ss) ! nat ?i = base + ?r * ?i" using lo by simp
    have "\<bar>?r * ?i - d\<bar> \<le> ?r div 2" using round_error[OF r d0] .
    then show ?thesis using idx rep True by simp
  next
    case False
    have s1: "sorted_wrt (\<lambda>a b. resolution a \<le> resolution b) ss" using Cons.prems(1) by simp
    have s2: "\<forall>s\<in>set ss. 0 < resolution s \<and> 0 \<le> slots s" using Cons.prems(2) by simp
    have s3: "\<forall>t\<in>set ss. 0 \<le> (d - ?r * ?n) + resolution t div 2"
    proof
      fix t assume t: "t \<in> set ss"
      then have "?r \<le> resolution t" using Cons.prems(1) by auto
      then have "?r div 2 \<le> resolution t div 2" by (simp add: zdiv_mono1)
      then show "0 \<le> (d - ?r * ?n) + resolution t div 2" using False h by simp
    qed
    let ?u = "updateIdx ss (d - ?r * ?n) (idx + ?n)"
    have u: "updateIdx (s # ss) d idx = ?u" using False by (simp add: Let_def)
    have lo: "idx + ?n \<le> ?u" using updateIdx_bounds[OF s1 s2 s3, of "idx + ?n"] by simp
    have hi: "?u < (idx + ?n) + sum_list (map slots ss)" using Cons.prems(4) u by simp
    have split: "nat (?u - idx) = nat ?n + nat (?u - (idx + ?n))" using lo n by linarith
    have "slotRepsNs base (s # ss) ! nat (?u - idx) =
          slotRepsNs (base + ?r * ?n) ss ! nat (?u - (idx + ?n))"
      unfolding split by (simp add: nth_append)
    moreover have "\<bar>slotRepsNs (base + ?r * ?n) ss ! nat (?u - (idx + ?n))
             - ((base + ?r * ?n) + (d - ?r * ?n))\<bar> \<le> segRes ss (d - ?r * ?n) div 2"
      using Cons.IH[OF s1 s2 s3 hi] .
    ultimately show ?thesis using u False by simp
  qed
qed

lemma slotRepsNs_multiple:
  "\<forall>s\<in>set segs. Millisecond dvd resolution s \<and> 0 < resolution s \<and> 0 \<le> slots s \<Longrightarrow>
   Millisecond dvd base \<Longrightarrow> 0 \<le> base \<Longrightarrow>
   \<forall>x\<in>set (slotRepsNs base segs). Millisecond dvd x \<and> 0 \<le> x"
proof (induction segs arbitrary: base)
  case Nil
  then show ?case by simp
next
  case (Cons s ss)
  have a: "Millisecond dvd base + resolution s * slots s" "0 \<le> base + resolution s * slots s"
    using Cons.prems by auto
  have "\<forall>x\<in>set (slotRepsNs (base + resolution s * slots s) ss). Millisecond dvd x \<and> 0 \<le> x"
    using Cons.IH[OF _ a] Cons.prems(1) by simp
  moreover have "\<forall>i. Millisecond dvd base + resolution s * int i \<and> 0 \<le> base + resolution s * int i"
    using Cons.prems by auto
  ultimately show ?case by auto
qed

lemma segments_multiple:
  "\<forall>s\<in>set segments. Millisecond dvd resolution s \<and> 0 < resolution s \<and> 0 \<le> slots s"
  by (simp add: segments_def seg_def Millisecond_def)

text \<open>The value Percentiles reports for a slot of the table, against a sample of that slot.\<close>

lemma reported_close:
  assumes "0 \<le> d" "slotOf d < 2000"
  shows "\<bar>slotReps 0 segments ! slotOf d * Millisecond - d\<bar> \<le> segRes segments d div 2"
proof -
  have wf: "\<forall>s\<in>set segments. 0 \<le> slots s" using segments_wf by auto
  have len: "length (slotRepsNs 0 segments) = 2000"
    using length_slotRepsNs[OF wf, of 0] segments_slots by simp
  have idx: "updateIdx segments d 0 < 0 + sum_list (map slots segments)"
    using assms(2) updateIdx_segments_range[OF assms(1)] unfolding slotOf_def segments_slots
    by linarith
  have c: "\<bar>slotRepsNs 0 segments ! slotOf d - d\<bar> \<le> segRes segments d div 2"
    using slot_rep_close[OF segments_sorted segments_wf segments_half[OF assms(1)] idx, of 0]
    by (simp add: slotOf_def)
  let ?x = "slotRepsNs 0 segments ! slotOf d"
  have "?x \<in> set (slotRepsNs 0 segments)" using assms(2) len by simp
  then have m: "Millisecond dvd ?x" "0 \<le> ?x"
    using slotRepsNs_multiple[OF segments_multiple, of 0] by auto
  have "?x sdiv Millisecond = ?x div Millisecond"
    using m(2) by (simp add: sdiv_nonneg Millisecond_def)
  then have "?x sdiv Millisecond * Millisecond = ?x" using m(1) by simp
  moreover have "slotReps 0 segments ! slotOf d = ?x sdiv Millisecond"
    using assms(2) len by (simp add: slotReps_Ns)
  ultimately show ?thesis using c by simp
qed

lemma percentiles_proper:
  "k < 7 \<Longrightarrow> 0 < fst (percentiles ! k) \<and> fst (percentiles ! k) \<le> snd (percentiles ! k)"
proof -
  assume "k < 7"
  then have "k = 0 \<or> k = 1 \<or> k = 2 \<or> k = 3 \<or> k = 4 \<or> k = 5 \<or> k = 6" by arith
  then show ?thesis by (auto simp: percentiles_def)
qed

lemma float_ge_rank:
  "0 < n \<Longrightarrow> 0 < b \<Longrightarrow> float_ge C n (a, b) = (rank (a, b) n \<le> C)"
  by (simp add: float_ge_def rank_le_iff mult.commute)

lemma percentiles_nearest_rank:
  assumes "xs \<noteq> []" "length xs < 2 ^ 32" "\<forall>d\<in>set xs. 0 \<le> d" "k < 7"
  shows "\<exists>ds. updates NewDurationSampler xs = Inr ds \<and>
     Percentiles ds ! k =
       (if slotOf (truePercentile (percentiles ! k) xs) < 2000
        then slotReps 0 segments ! slotOf (truePercentile (percentiles ! k) xs)
        else 9999999)"
proof -
  obtain a b where q: "percentiles ! k = (a, b)" by (cases "percentiles ! k") auto
  have ab: "0 < a" "a \<le> b" using percentiles_proper[OF assms(4)] q by simp_all
  then have b: "0 < b" by simp
  let ?v = "truePercentile (a, b) xs"
  let ?n = "length xs"
  have n: "0 < ?n" using assms(1) by simp
  from recorded_counts[OF assms(3,2)] obtain ds where ds:
    "updates NewDurationSampler xs = Inr ds" "length (durations ds) = 2001"
    "unat (count ds) = ?n"
    "\<forall>j<2001. unat (cumWord ds (Suc j)) = length (filter (\<lambda>x. slotOf x \<le> j) xs)"
    by blast
  let ?G = "\<lambda>j. float_ge (unat (cumWord ds (Suc j))) (unat (count ds)) (percentiles ! k)"
  have G: "\<And>j. j < 2001 \<Longrightarrow> ?G j = (rank (a, b) ?n \<le> length (filter (\<lambda>x. slotOf x \<le> j) xs))"
    using ds(3,4) q float_ge_rank[OF n b] by simp
  have wf: "\<forall>s\<in>set segments. 0 \<le> slots s" using segments_wf by auto
  have len: "length (slotReps 0 segments) = 2000"
    using length_slotReps[OF wf, of 0] segments_slots by simp
  have v0: "0 \<le> ?v" using truePercentile_in_set[OF ab assms(1)] assms(3) by simp
  have vle: "slotOf ?v \<le> 2000" using slotOf_le[OF v0] .
  note nr = nearest_rank_slot[OF ab assms(1,3)]
  have below: "\<forall>i. i < slotOf ?v \<longrightarrow> \<not> ?G (0 + i)"
  proof (intro allI impI)
    fix i assume i: "i < slotOf ?v"
    then have "i < 2001" using vle by simp
    then show "\<not> ?G (0 + i)" using G[of i] nr(2)[OF i] by simp
  qed
  have P: "Percentiles ds ! k = firstRep ?G 0 (slotReps 0 segments)"
    using Percentiles_firstRep[OF ds(2) assms(4)] .
  have "Percentiles ds ! k =
       (if slotOf ?v < 2000 then slotReps 0 segments ! slotOf ?v else 9999999)"
  proof (cases "slotOf ?v < 2000")
    case True
    have "?G (0 + slotOf ?v)" using G[of "slotOf ?v"] nr(1) True by simp
    then have "firstRep ?G 0 (slotReps 0 segments) = slotReps 0 segments ! slotOf ?v"
      using firstRep_hit[of "slotOf ?v" "slotReps 0 segments" ?G 0] below True len by simp
    then show ?thesis using P True by simp
  next
    case False
    then have "slotOf ?v = 2000" using vle by simp
    then have "\<forall>i<length (slotReps 0 segments). \<not> ?G (0 + i)" using below len by simp
    then have "firstRep ?G 0 (slotReps 0 segments) = 9999999" by (rule firstRep_miss)
    then show ?thesis using P False by simp
  qed
  then show ?thesis using ds(1) q by auto
qed

lemma slotOf_last_in_table: "slotOf (256488 * Millisecond - 1) = 1999"
  by (simp add: slotOf_def segments_def seg_def Millisecond_def signed_divide_int_def)

lemma slotOf_first_overflow: "slotOf (256488 * Millisecond) = 2000"
  by (simp add: slotOf_def segments_def seg_def Millisecond_def signed_divide_int_def)

lemma slotOf_in_table_iff:
  assumes "0 \<le> d"
  shows "(slotOf d < 2000) = (d < 256488 * Millisecond)"
proof
  assume s: "slotOf d < 2000"
  show "d < 256488 * Millisecond"
  proof (rule ccontr)
    assume "\<not> d < 256488 * Millisecond"
    then have "256488 * Millisecond \<le> d" by simp
    moreover have "(0::int) \<le> 256488 * Millisecond" by (simp add: Millisecond_def)
    ultimately have "slotOf (256488 * Millisecond) \<le> slotOf d" by (rule slotOf_mono[rotated])
    then show False using s slotOf_first_overflow by simp
  qed
next
  assume "d < 256488 * Millisecond"
  then have "d \<le> 256488 * Millisecond - 1" by simp
  then have "slotOf d \<le> slotOf (256488 * Millisecond - 1)" using assms by (intro slotOf_mono)
  then show "slotOf d < 2000" using slotOf_last_in_table by simp
qed

lemma truePercentile_samples0:
  "truePercentile (percentiles ! 1) samples0 = 3000 * Millisecond"
  by (simp add: truePercentile_def rank_def percentiles_def samples0_def Millisecond_def)

lemma segRes_3000: "segRes segments (3000 * Millisecond) = 16 * Millisecond"
  by (simp add: segments_def seg_def Millisecond_def signed_divide_int_def)

text \<open>
  C9, as the code has it. Record a list of samples, not empty, fewer than \<open>2 ^ 32\<close> and
  none negative, on a fresh sampler: no \<^verbatim>\<open>Update\<close> panics. Take any of the seven percentiles
  and let \<open>v\<close> be the true percentile of the samples, by nearest rank. When \<open>v\<close> is below
  256488 ms, so that \<^verbatim>\<open>Update\<close> counted it in a slot of the table, the value that
  \<^verbatim>\<open>Percentiles\<close> returns, in milliseconds, differs from \<open>v\<close> by at most half the resolution
  of the segment that holds \<open>v\<close>. Otherwise \<open>v\<close> was counted in the overflow slot, and the
  value is the sentinel 9999999.
\<close>

theorem percentiles_within_resolution:
  assumes "xs \<noteq> []" "length xs < 2 ^ 32" "\<forall>d\<in>set xs. 0 \<le> d" "k < 7"
  shows "\<exists>ds. updates NewDurationSampler xs = Inr ds \<and>
     (let v = truePercentile (percentiles ! k) xs in
      if v < 256488 * Millisecond
      then \<bar>Percentiles ds ! k * Millisecond - v\<bar> \<le> segRes segments v div 2
      else Percentiles ds ! k = 9999999)"
proof -
  let ?v = "truePercentile (percentiles ! k) xs"
  obtain a b where q: "percentiles ! k = (a, b)" by (cases "percentiles ! k") auto
  have ab: "0 < a" "a \<le> b" using percentiles_proper[OF assms(4)] q by simp_all
  have v0: "0 \<le> ?v" using truePercentile_in_set[OF ab assms(1)] assms(3) q by simp
  from percentiles_nearest_rank[OF assms] obtain ds where ds:
    "updates NewDurationSampler xs = Inr ds"
    "Percentiles ds ! k = (if slotOf ?v < 2000 then slotReps 0 segments ! slotOf ?v else 9999999)"
    by blast
  have "if ?v < 256488 * Millisecond
      then \<bar>Percentiles ds ! k * Millisecond - ?v\<bar> \<le> segRes segments ?v div 2
      else Percentiles ds ! k = 9999999"
  proof (cases "?v < 256488 * Millisecond")
    case True
    then have s: "slotOf ?v < 2000" using slotOf_in_table_iff[OF v0] by simp
    show ?thesis using True s ds(2) reported_close[OF v0 s] by simp
  next
    case False
    then have "\<not> slotOf ?v < 2000" using slotOf_in_table_iff[OF v0] by simp
    then show ?thesis using False ds(2) by simp
  qed
  then show ?thesis using ds(1) by (auto simp: Let_def)
qed

theorem percentiles_within_resolution_witness:
  "samples0 \<noteq> [] \<and> length samples0 < 2 ^ 32 \<and>
   truePercentile (percentiles ! 1) samples0 = 3000 * Millisecond \<and>
   (\<exists>ds. updates NewDurationSampler samples0 = Inr ds \<and>
      \<bar>Percentiles ds ! 1 * Millisecond - 3000 * Millisecond\<bar> \<le> 8 * Millisecond)"
proof -
  have h1: "samples0 \<noteq> []" by (simp add: samples0_def)
  have h2: "length samples0 < 2 ^ 32" by (simp add: samples0_def)
  have h3: "\<forall>d\<in>set samples0. 0 \<le> d" by (simp add: samples0_def Millisecond_def)
  have h4: "(1::nat) < 7" by simp
  have lt: "(3000::int) * Millisecond < 256488 * Millisecond" by (simp add: Millisecond_def)
  from percentiles_within_resolution [OF h1 h2 h3 h4]
  show ?thesis using h1 h2 truePercentile_samples0 segRes_3000 lt
    by (auto simp: Let_def)
qed

text \<open>
  C9 as stated fails: the overflow slot starts at 256488 ms, half a resolution of the last
  segment below the 257000 ms that the table covers. A single sample of 256800 ms lies
  within the coverage; it is its own median; and the median \<^verbatim>\<open>Percentiles\<close> returns is the
  sentinel 9999999, further from the sample than any resolution of the table.
\<close>

theorem percentile_in_coverage_reported_as_sentinel:
  "0 \<le> 256800 * Millisecond \<and> 256800 * Millisecond < coverage segments \<and>
   truePercentile (percentiles ! 1) [256800 * Millisecond] = 256800 * Millisecond \<and>
   Percentiles (projr (updates NewDurationSampler [256800 * Millisecond])) ! 1 = 9999999 \<and>
   \<not> \<bar>9999999 * Millisecond - 256800 * Millisecond\<bar> \<le> 1024 * Millisecond"
proof -
  have h3: "\<forall>d\<in>set [256800 * Millisecond]. 0 \<le> d" by (simp add: Millisecond_def)
  have tp: "truePercentile (percentiles ! 1) [256800 * Millisecond] = 256800 * Millisecond"
    by (simp add: truePercentile_def rank_def percentiles_def)
  have "(0::int) \<le> 256800 * Millisecond" by (simp add: Millisecond_def)
  then have "\<not> slotOf (256800 * Millisecond) < 2000"
    using slotOf_in_table_iff[of "256800 * Millisecond"] by (simp add: Millisecond_def)
  then have "\<exists>ds. updates NewDurationSampler [256800 * Millisecond] = Inr ds \<and>
      Percentiles ds ! 1 = 9999999"
    using percentiles_nearest_rank[of "[256800 * Millisecond]" 1] h3 tp by simp
  then have "Percentiles (projr (updates NewDurationSampler [256800 * Millisecond])) ! 1 = 9999999"
    by auto
  moreover have "256800 * Millisecond < coverage segments"
    by (simp add: segments_coverage Millisecond_def)
  moreover have "\<not> \<bar>9999999 * Millisecond - 256800 * Millisecond\<bar> \<le> 1024 * Millisecond"
    by (simp add: Millisecond_def)
  moreover have "(0::int) \<le> 256800 * Millisecond" by (simp add: Millisecond_def)
  ultimately show ?thesis using tp by simp
qed

section \<open>The runtime's state machine\<close>

text \<open>
  C2. A \<^verbatim>\<open>ServeFailed\<close> event whose round is below the runtime's round leaves the runtime
  as it is, in every field. One whose round is the runtime's round sets the state to
  Failed (and so the health gauge to 0) and the error to the event's error: its message,
  or the empty error \<^verbatim>\<open>errNil\<close> when the event carries nil; nothing else changes.
\<close>

theorem stale_serve_failed_is_noop:
  "(e_roundNum < roundNum r \<longrightarrow> handleEventServeFailed r e_roundNum e_err = r) \<and>
   (e_roundNum = roundNum r \<longrightarrow>
      handleEventServeFailed r e_roundNum e_err =
        r\<lparr>state := stateFailed, health := 0,
          err := (case e_err of None \<Rightarrow> errNil | Some msg \<Rightarrow> msg)\<rparr>)"
  by (auto simp: handleEventServeFailed_def setState_def setError_def exportState_def
      split: option.splits)

theorem stale_serve_failed_is_noop_witness:
  "(1::64 word) < roundNum runtime2 \<and>
   handleEventServeFailed runtime2 1 (Some ''bind'') = runtime2 \<and>
   getState (handleEventServeFailed runtime2 2 (Some ''bind'')) = stateFailed \<and>
   getError (handleEventServeFailed runtime2 2 (Some ''bind'')) = ''bind''"
  using stale_serve_failed_is_noop [of 1 runtime2 "Some ''bind''"]
    stale_serve_failed_is_noop [of 2 runtime2 "Some ''bind''"]
  by (simp add: runtime2_def runtime0_def getError_def getState_def)

text \<open>
  The answer of \<^verbatim>\<open>needRestartServer\<close>. With a runtime whose spec is \<open>old\<close> and a next spec
  \<open>new\<close>, both not nil,
  \<^verbatim>\<open>needRestartServer\<close> returns false exactly when \<open>new\<close> is \<open>old\<close> with (at most) the six
  fields MaxConnections, CacheSize, XForwardedFor, Tracing, IPFilter and Rules changed; it
  returns true exactly when the port, the HTTPS flag, the HTTP/3 flag, the keep-alive flag,
  the keep-alive timeout or any further field of the struct differs.
\<close>

theorem need_restart_iff_cold_field_differs:
  "needRestartServer (r\<lparr>spec := Some old\<rparr>) (Some new) =
     Inr (\<not> (Port old = Port new \<and> HTTPS old = HTTPS new \<and> HTTP3 old = HTTP3 new \<and>
              KeepAlive old = KeepAlive new \<and> KeepAliveTimeout old = KeepAliveTimeout new \<and>
              Spec.more old = Spec.more new))
   \<and> ((needRestartServer (r\<lparr>spec := Some old\<rparr>) (Some new) = Inr False) =
       (\<exists>mc cs xff tr ipf rl.
          new = old\<lparr>MaxConnections := mc, CacheSize := cs, XForwardedFor := xff,
                    Tracing := tr, IPFilter := ipf, Rules := rl\<rparr>))"
proof -
  have a: "needRestartServer (r\<lparr>spec := Some old\<rparr>) (Some new) =
     Inr (\<not> (Port old = Port new \<and> HTTPS old = HTTPS new \<and> HTTP3 old = HTTP3 new \<and>
              KeepAlive old = KeepAlive new \<and> KeepAliveTimeout old = KeepAliveTimeout new \<and>
              Spec.more old = Spec.more new))"
    by (cases old, cases new) (simp add: needRestartServer_def DeepEqual_def zeroHotFields_def)
  have b: "(Port old = Port new \<and> HTTPS old = HTTPS new \<and> HTTP3 old = HTTP3 new \<and>
              KeepAlive old = KeepAlive new \<and> KeepAliveTimeout old = KeepAliveTimeout new \<and>
              Spec.more old = Spec.more new) =
       (\<exists>mc cs xff tr ipf rl.
          new = old\<lparr>MaxConnections := mc, CacheSize := cs, XForwardedFor := xff,
                    Tracing := tr, IPFilter := ipf, Rules := rl\<rparr>)"
    by (cases old, cases new) auto
  show ?thesis using a b by simp
qed

lemma roundNum_emit [simp]: "roundNum (emit es r) = roundNum r"
  by (simp add: emit_def)

lemma roundNum_closeServer [simp]: "roundNum (closeServer r) = roundNum r"
  by (simp add: closeServer_def)

lemma roundNum_startServer:
  "startServer env r = Inr r' \<Longrightarrow> roundNum r' = roundNum r + 1"
  by (auto simp: startServer_def Let_def startHTTP3Server_def startHTTP1And2Server_def
      setState_def setError_def exportState_def emit_def
      split: option.splits if_splits)

text \<open>
  What the answer of \<^verbatim>\<open>needRestartServer\<close> does in \<^verbatim>\<open>reload\<close>: with both specs present, the
  server is started anew, in a new round, exactly when one of the other fields differs.
\<close>

lemma reload_restarts_on_cold_change:
  assumes "spec r = Some old" "ObjectSpec next = Some new" "reload env r next mm = Inr r'"
  shows "roundNum r' =
     (if Port old = Port new \<and> HTTPS old = HTTPS new \<and> HTTP3 old = HTTP3 new \<and>
         KeepAlive old = KeepAlive new \<and> KeepAliveTimeout old = KeepAliveTimeout new \<and>
         Spec.more old = Spec.more new
      then roundNum r else roundNum r + 1)"
  using assms
  by (cases old, cases new)
     (auto simp: reload_def Let_def needRestartServer_def DeepEqual_def zeroHotFields_def emit_def
       split: if_splits sum.splits bool.splits option.splits dest!: roundNum_startServer)

lemmas runtime_defs =
  handleEventReload_def reload_def startServer_def startHTTP1And2Server_def
  startHTTP3Server_def closeServer_def needRestartServer_def DeepEqual_def zeroHotFields_def
  setState_def setError_def exportState_def emit_def errNil_def Let_def

text \<open>
  On a runtime that has an HTTP/1 server and never had an HTTP/3 server, a reload to an
  HTTP/1 spec that differs in one of the other fields does restart the listener: it shuts
  the server down, then listens on the new port in a new round, and serves when the listen
  succeeded.
\<close>

lemma reload_restarts_http1_listener:
  assumes "spec r = Some old" "ObjectSpec next = Some new" "server3 r = None" "server r \<noteq> None"
    and "\<not> HTTP3 new"
    and "\<not> (Port old = Port new \<and> HTTPS old = HTTPS new \<and> HTTP3 old = HTTP3 new \<and>
         KeepAlive old = KeepAlive new \<and> KeepAliveTimeout old = KeepAliveTimeout new \<and>
         Spec.more old = Spec.more new)"
  shows "\<exists>r'. reload env r next mm = Inr r' \<and> roundNum r' = roundNum r + 1 \<and>
     server r' = Some (roundNum r + 1) \<and>
     trace r' = trace r @ MuxReload mm #
       (if limitListener r \<noteq> None then [SetMaxConnection (MaxConnections new)] else []) @
       [ServerShutdown, Listen (roundNum r + 1) (Port new)] @
       (case env (roundNum r + 1) of None \<Rightarrow> [Serve (roundNum r + 1)] | Some e \<Rightarrow> [])"
  using assms
  by (cases old, cases new)
     (auto simp: reload_def runtime_defs split: option.splits)

text \<open>
  C3 at a runtime that once served HTTP/3. The runtime is reloaded with an HTTP/3 spec,
  then with an HTTP/1 spec on port 80, then with the same spec on port 81, and every listen
  succeeds. For the change of port \<^verbatim>\<open>needRestartServer\<close> returns true, and \<^verbatim>\<open>reload\<close> calls
  \<^verbatim>\<open>closeServer\<close> and \<^verbatim>\<open>startServer\<close>. But \<^verbatim>\<open>server3\<close> is never reset: \<^verbatim>\<open>closeServer\<close> closes the
  HTTP/3 server of round 1 once more and returns before it reaches the HTTP/1 server. The
  listener of round 2 on port 80 is never shut down, while round 3 listens on port 81: the
  listener is not restarted, a second one is opened.
\<close>

theorem cold_reload_after_http3_leaves_listener:
  "needRestartServer (runtime0\<lparr>spec := Some spec0\<rparr>) (Some (spec0\<lparr>Port := 81\<rparr>)) = Inr True \<and>
   traceOf (fsm (\<lambda>_. None) eventsH3 runtime0) =
     [MuxReload 0, ServeHTTP3 1,
      MuxReload 0, Server3Close, Listen 2 80, Serve 2,
      MuxReload 0, SetMaxConnection 100, Server3Close, Listen 3 81, Serve 3] \<and>
   ServerShutdown \<notin> set (traceOf (fsm (\<lambda>_. None) eventsH3 runtime0))"
  by (simp add: traceOf_def eventsH3_def superH3_def super0_def super81_def spec0_def runtime0_def
      runtime_defs)

lemma state_emit [simp]: "state (emit es r) = state r"
  by (simp add: emit_def)

lemma state_closeServer [simp]: "state (closeServer r) = state r"
  by (simp add: closeServer_def)

lemma state_setState [simp]: "state (setState st r) = st"
  by (simp add: setState_def exportState_def)

lemma state_setError [simp]: "state (setError e r) = state r"
  by (simp add: setError_def split: option.splits)

lemma startServer_not_closed:
  "startServer env r = Inr r' \<Longrightarrow> state r' \<noteq> stateClosed"
  by (auto simp: startServer_def Let_def startHTTP3Server_def startHTTP1And2Server_def
      split: option.splits if_splits)

lemma reload_closed:
  "reload env r ss mm = Inr r' \<Longrightarrow> state r' = stateClosed \<Longrightarrow> state r = stateClosed"
  by (auto simp: reload_def Let_def split: option.splits if_splits sum.splits bool.splits
      dest: startServer_not_closed)

lemma checkFailed_closed:
  "handleEventCheckFailed env r = Inr r' \<Longrightarrow> state r' = stateClosed \<Longrightarrow> state r = stateClosed"
  by (auto simp: handleEventCheckFailed_def split: if_splits dest: startServer_not_closed)

lemma serveFailed_closed:
  "state (handleEventServeFailed r n e) = stateClosed \<Longrightarrow> state r = stateClosed"
  by (auto simp: handleEventServeFailed_def split: if_splits)

lemma fsm_no_close:
  "\<forall>e\<in>set es. \<not> isClose e \<Longrightarrow>
   (\<forall>r' rest. fsm env es r \<noteq> Inr (Exited r' rest)) \<and>
   (\<forall>r'. fsm env es r = Inr (Waiting r') \<longrightarrow> state r' = stateClosed \<longrightarrow> state r = stateClosed)"
proof (induction es arbitrary: r)
  case Nil
  then show ?case by simp
next
  case (Cons e es)
  then have IH: "\<And>r. (\<forall>r' rest. fsm env es r \<noteq> Inr (Exited r' rest)) \<and>
   (\<forall>r'. fsm env es r = Inr (Waiting r') \<longrightarrow> state r' = stateClosed \<longrightarrow> state r = stateClosed)"
    by simp
  show ?case
  proof (cases e)
    case eventCheckFailed
    show ?thesis
    proof (cases "handleEventCheckFailed env r")
      case (Inl p)
      then show ?thesis using eventCheckFailed by simp
    next
      case (Inr r1)
      then show ?thesis using eventCheckFailed IH[of r1] checkFailed_closed[OF Inr] by auto
    qed
  next
    case (eventServeFailed n er)
    then show ?thesis
      using IH[of "handleEventServeFailed r n er"] serveFailed_closed[of r n er] by auto
  next
    case (eventReload ss mm)
    show ?thesis
    proof (cases "reload env r ss mm")
      case (Inl p)
      then show ?thesis using eventReload by (simp add: handleEventReload_def)
    next
      case (Inr r1)
      then show ?thesis using eventReload IH[of r1] reload_closed[OF Inr]
        by (auto simp: handleEventReload_def)
    qed
  next
    case (eventClose d)
    then show ?thesis using Cons.prems by simp
  next
    case eventUnknown
    then show ?thesis using IH[of "emit [LogBug] r"] by auto
  qed
qed

lemma fsm_append_close:
  "fsm env es r = Inr (Waiting r1) \<Longrightarrow>
   fsm env (es @ eventClose d # es2) r = Inr (Exited (handleEventClose r1 d) es2)"
proof (induction es arbitrary: r)
  case Nil
  then show ?case by simp
next
  case (Cons e es)
  then show ?case by (cases e) (auto split: sum.splits)
qed

text \<open>
  C8. Let \<open>es\<close> be events none of which is a Close event, handled from any runtime \<open>r\<close>.
  After any number of them the state is Closed only if it was Closed at the start: no
  CheckFailed, ServeFailed, Reload or unknown event makes the state Closed. The loop does
  not return on them. When a Close event follows, the loop sets the state to Closed and
  returns, and the events behind the Close event stay unhandled.
\<close>

theorem fsm_closed_only_by_close:
  assumes "\<forall>e\<in>set es. \<not> isClose e"
  shows "(\<forall>n r'. fsm env (take n es) r = Inr (Waiting r') \<longrightarrow> state r' = stateClosed
            \<longrightarrow> state r = stateClosed)
       \<and> (\<forall>r' rest. fsm env es r \<noteq> Inr (Exited r' rest))
       \<and> (\<forall>r1 d es2. fsm env es r = Inr (Waiting r1) \<longrightarrow>
            fsm env (es @ eventClose d # es2) r = Inr (Exited (handleEventClose r1 d) es2)
            \<and> state (handleEventClose r1 d) = stateClosed)"
proof -
  have "\<And>n. \<forall>e\<in>set (take n es). \<not> isClose e" using assms by (auto dest: in_set_takeD)
  then have a: "\<forall>n r'. fsm env (take n es) r = Inr (Waiting r') \<longrightarrow> state r' = stateClosed
            \<longrightarrow> state r = stateClosed"
    using fsm_no_close by blast
  have b: "\<forall>r' rest. fsm env es r \<noteq> Inr (Exited r' rest)" using fsm_no_close[OF assms] by blast
  have c: "\<forall>r1 d es2. fsm env es r = Inr (Waiting r1) \<longrightarrow>
            fsm env (es @ eventClose d # es2) r = Inr (Exited (handleEventClose r1 d) es2)
            \<and> state (handleEventClose r1 d) = stateClosed"
    by (auto simp: fsm_append_close handleEventClose_def)
  show ?thesis using a b c by blast
qed

theorem fsm_closed_only_by_close_witness:
  "state runtime0 = stateNil \<and>
   (\<exists>r1. fsm (\<lambda>_. None) events0 runtime0 = Inr (Waiting r1) \<and> state r1 = stateRunning \<and>
      fsm (\<lambda>_. None) (events0 @ eventClose 7 # [eventCheckFailed]) runtime0
        = Inr (Exited (handleEventClose r1 7) [eventCheckFailed]) \<and>
      state (handleEventClose r1 7) = stateClosed)"
proof -
  have h: "\<forall>e\<in>set events0. \<not> isClose e" by (simp add: events0_def)
  have w: "\<exists>r1. fsm (\<lambda>_. None) events0 runtime0 = Inr (Waiting r1) \<and> state r1 = stateRunning"
    by (simp add: events0_def runtime0_def super0_def spec0_def handleEventReload_def reload_def
        startServer_def startHTTP1And2Server_def handleEventServeFailed_def
        handleEventCheckFailed_def getState_def setState_def setError_def exportState_def
        emit_def errNil_def Let_def)
  then obtain r1 where r1: "fsm (\<lambda>_. None) events0 runtime0 = Inr (Waiting r1)" "state r1 = stateRunning"
    by blast
  from fsm_closed_only_by_close [OF h, of "\<lambda>_. None" runtime0] r1
  show ?thesis by (auto simp: runtime0_def)
qed

section \<open>The gateway cluster: construction and stopping\<close>

text \<open>
  C7, as the code has it. \<^verbatim>\<open>NewGatewayCluster\<close> compares the advertise address with three
  strings. When \<^verbatim>\<open>ClusterHost\<close> is \<^verbatim>\<open>127.0.0.1\<close>, \<^verbatim>\<open>localhost\<close> or \<^verbatim>\<open>0.0.0.0\<close>, construction
  fails for every configuration, model and environment: an error is returned and no cluster
  object.
\<close>

theorem new_cluster_rejects_listed_hosts:
  assumes "ClusterHost env \<in> {''127.0.0.1'', ''localhost'', ''0.0.0.0''}"
  shows "isl (NewGatewayCluster env cf md)"
  using assms
  by (auto simp: NewGatewayCluster_def StrInSlice_def Let_def split: option.splits)

theorem new_cluster_rejects_listed_hosts_witness:
  "NewGatewayCluster (goodEnv\<lparr>ClusterHost := ''localhost''\<rparr>) goodConf (Some 0)
     = Inl ''invalid advertise address localhost, it should be reachable from peer''"
proof -
  have h: "ClusterHost (goodEnv\<lparr>ClusterHost := ''localhost''\<rparr>)
             \<in> {''127.0.0.1'', ''localhost'', ''0.0.0.0''}"
    by simp
  have "NewGatewayCluster (goodEnv\<lparr>ClusterHost := ''localhost''\<rparr>) goodConf (Some 0)
     = Inl ''invalid advertise address localhost, it should be reachable from peer''"
    by (simp add: NewGatewayCluster_def StrInSlice_def goodEnv_def goodConf_def lanConfig_def
        Second_def Millisecond_def Let_def)
  with new_cluster_rejects_listed_hosts [OF h, of goodConf "Some 0"] show ?thesis by simp
qed

text \<open>
  C7 as stated fails: \<^verbatim>\<open>127.0.0.2\<close> is a loopback address (all of 127.0.0.0/8 is), and with
  it as \<^verbatim>\<open>ClusterHost\<close> a valid configuration passes every check of \<^verbatim>\<open>NewGatewayCluster\<close>;
  where the gossip layer and the log can be made, the cluster object is returned,
  advertising that address.
\<close>

theorem new_cluster_accepts_other_loopback:
  "\<not> isl (NewGatewayCluster (goodEnv\<lparr>ClusterHost := ''127.0.0.2''\<rparr>) goodConf (Some 0)) \<and>
   AdvertiseAddress (clusterConf
     (projr (NewGatewayCluster (goodEnv\<lparr>ClusterHost := ''127.0.0.2''\<rparr>) goodConf (Some 0))))
     = ''127.0.0.2''"
  by (simp add: NewGatewayCluster_def StrInSlice_def goodEnv_def goodConf_def lanConfig_def
        Second_def Millisecond_def Let_def)

lemma internalStop_success_stopped:
  "internalStop env gc b = (Returns None, gc1, effs) \<Longrightarrow> stopped gc1"
  by (auto simp: internalStop_def closeLogAndFinish_def Let_def split: if_splits option.splits)

lemma internalStop_when_stopped:
  "stopped gc \<Longrightarrow> internalStop env gc b = (Returns (Some ''already stopped''), gc, [])"
  by (simp add: internalStop_def)

text \<open>
  What the guard on \<^verbatim>\<open>stopped\<close> achieves. After a call of \<^verbatim>\<open>Stop()\<close> that returned nil, a second call of
  \<^verbatim>\<open>Stop()\<close>, whatever the cluster and the log would answer, returns the error
  \<^verbatim>\<open>already stopped\<close>, leaves the object as it is and does nothing else: it closes no
  channel, leaves no cluster and closes no log.
\<close>

theorem stop_after_successful_stop:
  assumes "Stop env1 gc = (Returns None, gc1, effs1)"
  shows "Stop env2 gc1 = (Returns (Some ''already stopped''), gc1, [])"
  using internalStop_success_stopped [of env1 gc True gc1 effs1] assms
  by (simp add: Stop_def internalStop_def)

theorem stop_after_successful_stop_witness:
  "fst (Stop stopOk freshCluster) = Returns None \<and>
   Stop stopOk (fst (snd (Stop stopOk freshCluster)))
     = (Returns (Some ''already stopped''), fst (snd (Stop stopOk freshCluster)), [])"
proof -
  have f: "fst (Stop stopOk freshCluster) = Returns None"
    by (simp add: Stop_def internalStop_def closeLogAndFinish_def stopOk_def freshCluster_def
       NewGatewayCluster_def StrInSlice_def goodEnv_def goodConf_def lanConfig_def
        Second_def Millisecond_def Let_def)
  then have h: "Stop stopOk freshCluster =
     (Returns None, fst (snd (Stop stopOk freshCluster)), snd (snd (Stop stopOk freshCluster)))"
    by (metis prod.collapse)
  show ?thesis using stop_after_successful_stop [OF h, of stopOk] f by blast
qed

text \<open>
  \<^verbatim>\<open>internalStop\<close> closes \<^verbatim>\<open>stopChan\<close> first and sets \<^verbatim>\<open>stopped\<close> last. Whenever a first
  \<^verbatim>\<open>Stop()\<close> on a running cluster returns an error (of \<^verbatim>\<open>cluster.Leave\<close>, \<^verbatim>\<open>cluster.Stop\<close> or
  \<^verbatim>\<open>log.Close\<close>), the flag is still false and the channel closed, and a second \<^verbatim>\<open>Stop()\<close>
  panics on closing the channel again, before it does anything else.
\<close>

lemma second_stop_after_any_failed_stop:
  assumes "\<not> stopped gc" "\<not> stopChanClosed gc" "Stop env1 gc = (Returns (Some e), gc1, effs1)"
  shows "Stop env2 gc1 = (Panics CloseOfClosedChannel, gc1, [])"
  using assms
  by (auto simp: Stop_def internalStop_def closeLogAndFinish_def Let_def
      split: option.splits if_splits)

text \<open>
  C6 at a cluster whose first \<^verbatim>\<open>Stop()\<close> failed. The first call returns the error of
  \<^verbatim>\<open>cluster.Leave\<close>; the second call does not return \<^verbatim>\<open>already stopped\<close>: it panics with
  a close of the closed \<^verbatim>\<open>stopChan\<close>.
\<close>

theorem second_stop_after_failed_stop_panics:
  "fst (Stop stopLeaveFails freshCluster) = Returns (Some ''leave failed'') \<and>
   fst (Stop stopOk (fst (snd (Stop stopLeaveFails freshCluster)))) = Panics CloseOfClosedChannel"
  by (simp add: Stop_def internalStop_def stopLeaveFails_def stopOk_def freshCluster_def
       NewGatewayCluster_def StrInSlice_def goodEnv_def goodConf_def lanConfig_def
        Second_def Millisecond_def Let_def)

section \<open>The gateway cluster: dispatching\<close>

lemmas messageType_defs =
  querySeqMessage_def queryMemberMessage_def queryMembersListMessage_def
  queryGroupMessage_def operationMessage_def operationRelayMessage_def retrieveMessage_def
  retrieveRelayMessage_def statMessage_def statRelayMessage_def opLogPullMessage_def

text \<open>
  C4, as the code has it. Handling a request event never answers it. An event with an
  empty payload or one that is closed starts no handler. Otherwise, with \<open>t\<close> the first
  byte of the payload: when \<open>t\<close> is Operation or Retrieve and the mode is not Write, or \<open>t\<close>
  is OperationRelay or RetrieveRelay and the mode is not Read, or \<open>t\<close> is none of the
  eleven message types, no handler is started; in every other case exactly one handler is
  started as a new goroutine, the one of the message type \<open>t\<close>, on this event.
\<close>

theorem dispatch_request_cases:
  "responded (dispatchRequest m ev) = [] \<and>
   (RequestPayload ev = [] \<or> Closed ev \<longrightarrow> spawned (dispatchRequest m ev) = []) \<and>
   (RequestPayload ev \<noteq> [] \<and> \<not> Closed ev \<longrightarrow>
      spawned (dispatchRequest m ev) =
        (if (hd (RequestPayload ev) \<in> {operationMessage, retrieveMessage} \<and> m \<noteq> WriteMode) \<or>
            (hd (RequestPayload ev) \<in> {operationRelayMessage, retrieveRelayMessage} \<and> m \<noteq> ReadMode)
         then []
         else (case handlerOf (hd (RequestPayload ev)) of None \<Rightarrow> [] | Some h \<Rightarrow> [(h, ev)])))"
  by (simp add: dispatchRequest_def spawned_def responded_def handlerOf_def Let_def
      messageType_defs)

theorem dispatch_request_cases_witness:
  "Closed lateRequest \<and> spawned (dispatchRequest ReadMode lateRequest) = [] \<and>
   RequestPayload querySeqRequest \<noteq> [] \<and> \<not> Closed querySeqRequest \<and>
   spawned (dispatchRequest ReadMode querySeqRequest) = [(handleQuerySequence, querySeqRequest)] \<and>
   spawned (dispatchRequest WriteMode operationRequest) = [(handleOperation, operationRequest)] \<and>
   spawned (dispatchRequest ReadMode operationRequest) = []"
  using dispatch_request_cases [of ReadMode lateRequest]
    dispatch_request_cases [of ReadMode querySeqRequest]
    dispatch_request_cases [of WriteMode operationRequest]
    dispatch_request_cases [of ReadMode operationRequest]
  by (simp add: lateRequest_def querySeqRequest_def operationRequest_def handlerOf_def
      messageType_defs ReadMode_def WriteMode_def)

text \<open>
  C4 as stated fails twice. A request that is not empty and not closed, whose first byte
  (200) is none of the four mode-bound types, falls under the claim's last case, yet on a
  Write node no handler is started: the byte is no message type. And an Operation request
  on a node whose mode is the empty \<^verbatim>\<open>NilMode\<close>, which is not Read, starts no handler
  either: the code asks for the Write mode.
\<close>

theorem dispatch_drops_unknown_type_and_nil_mode:
  "RequestPayload unknownRequest \<noteq> [] \<and> \<not> Closed unknownRequest \<and>
   hd (RequestPayload unknownRequest) \<notin>
     {operationMessage, retrieveMessage, operationRelayMessage, retrieveRelayMessage} \<and>
   spawned (dispatchRequest WriteMode unknownRequest) = [] \<and>
   RequestPayload operationRequest \<noteq> [] \<and> \<not> Closed operationRequest \<and>
   hd (RequestPayload operationRequest) = operationMessage \<and> NilMode \<noteq> ReadMode \<and>
   spawned (dispatchRequest NilMode operationRequest) = []"
  by (simp add: dispatchRequest_def spawned_def unknownRequest_def operationRequest_def
      messageType_defs NilMode_def ReadMode_def WriteMode_def)

section \<open>The gateway cluster: groups and responses\<close>

lemma groupsLoop_inv:
  "distinct groups \<Longrightarrow> set groups = groupsBook \<Longrightarrow>
   distinct (groupsLoop ms groups groupsBook) \<and>
   set (groupsLoop ms groups groupsBook) = set groups \<union> (\<lambda>m. tag m groupTagKey) ` set ms"
proof (induction ms arbitrary: groups groupsBook)
  case Nil
  then show ?case by simp
next
  case (Cons m ms)
  show ?case
  proof (cases "tag m groupTagKey \<in> groupsBook")
    case True
    then show ?thesis using Cons.IH[OF Cons.prems] Cons.prems by (auto simp: Let_def)
  next
    case False
    have d: "distinct (groups @ [tag m groupTagKey])" using False Cons.prems by simp
    have s: "set (groups @ [tag m groupTagKey]) = insert (tag m groupTagKey) groupsBook"
      using Cons.prems by simp
    show ?thesis using Cons.IH[OF d s] False by (auto simp: Let_def)
  qed
qed

text \<open>
  What \<^verbatim>\<open>groupsInCluster\<close> does return: the group tags of all members, whatever their
  status, in ascending order and each once.
\<close>

lemma groupsInCluster_sorted_distinct:
  "sorted (groupsInCluster ms) \<and> distinct (groupsInCluster ms) \<and>
   set (groupsInCluster ms) = (\<lambda>m. tag m groupTagKey) ` set ms"
  using groupsLoop_inv [of "[]" "{}" ms] by (simp add: groupsInCluster_def)

text \<open>
  C5 at a snapshot whose only member has failed: \<^verbatim>\<open>groupsInCluster\<close> returns the group of
  that member, though no member of the group is alive. \<^verbatim>\<open>writerInGroup\<close>, on the same
  snapshot, does look at the status.
\<close>

theorem groupsInCluster_lists_dead_group:
  "groupsInCluster [deadMember] = [''g1''] \<and>
   \<not> (\<exists>m \<in> set [deadMember]. tag m groupTagKey = ''g1'' \<and> Status m = MemberAlive)"
  by (simp add: groupsInCluster_def deadMember_def tag_def)

text \<open>
  C1 at a book that expects the nodes A and B, when A answers twice: the second answer is
  skipped but counted, the counter reaches the size of the book, and \<^verbatim>\<open>recordResp\<close>
  returns with the entry of B still nil, though the response channel was not closed (no
  timeout) and \<^verbatim>\<open>stopChan\<close> was not closed either.
\<close>

theorem recordResp_returns_on_duplicate:
  "recordResp [Response ''A'' (Some [1]), Response ''A'' (Some [2])] 0 [(''A'', None), (''B'', None)]
     = Some ([(''A'', Some [1]), (''B'', None)], [])"
  by simp

end
